theory Spec2Isabelle
  imports Complex_Main "HOL-Library.List_Lexorder" "HOL-Library.Char_ord" "HOL-Library.Multiset"
begin

section \<open>Text: characters, classes and string helpers\<close>

text \<open>
  Python strings are modelled as \<open>string\<close>, restricted to ASCII text: the character
  classes below are the ASCII part of the classes Python's \<open>re\<close> and \<open>str\<close> use for
  \<open>str\<close> values (\<open>\s\<close> and \<open>str.strip\<close> count the separators 0x1C..0x1F as white space).
\<close>

definition ord :: "char \<Rightarrow> nat" where
  "ord c = of_char c"

definition is_upper :: "char \<Rightarrow> bool" where
  "is_upper c = (65 \<le> ord c \<and> ord c \<le> 90)"

definition is_lower :: "char \<Rightarrow> bool" where
  "is_lower c = (97 \<le> ord c \<and> ord c \<le> 122)"

definition is_digit :: "char \<Rightarrow> bool" where
  "is_digit c = (48 \<le> ord c \<and> ord c \<le> 57)"

definition is_space :: "char \<Rightarrow> bool" where
  "is_space c = ((9 \<le> ord c \<and> ord c \<le> 13) \<or> (28 \<le> ord c \<and> ord c \<le> 32))"

definition is_word :: "char \<Rightarrow> bool" where
  "is_word c = (is_upper c \<or> is_lower c \<or> is_digit c \<or> c = CHR ''_'')"

definition upper_char :: "char \<Rightarrow> char" where
  "upper_char c = (if is_lower c then char_of (ord c - 32) else c)"

definition lower_char :: "char \<Rightarrow> char" where
  "lower_char c = (if is_upper c then char_of (ord c + 32) else c)"

text \<open>\<open>str.upper\<close>.\<close>

definition upper :: "string \<Rightarrow> string" where
  "upper s = map upper_char s"

text \<open>\<open>sep.join(xs)\<close>.\<close>

fun join :: "string \<Rightarrow> string list \<Rightarrow> string" where
  "join sep [] = []"
| "join sep [x] = x"
| "join sep (x # y # ys) = x @ sep @ join sep (y # ys)"

text \<open>\<open>re.split\<close> on a one-character class: one piece more than there are separators.\<close>

fun split_on :: "(char \<Rightarrow> bool) \<Rightarrow> string \<Rightarrow> string list" where
  "split_on P [] = [[]]"
| "split_on P (c # cs) =
     (if P c then [] # split_on P cs
      else (case split_on P cs of [] \<Rightarrow> [[c]] | t # ts \<Rightarrow> (c # t) # ts))"

text \<open>\<open>str.strip\<close>, and the truth value of \<open>t.strip()\<close>.\<close>

definition strip :: "string \<Rightarrow> string" where
  "strip t = rev (dropWhile is_space (rev (dropWhile is_space t)))"

definition strip_nonempty :: "string \<Rightarrow> bool" where
  "strip_nonempty t = (strip t \<noteq> [])"

section \<open>Regular expressions with Python's backtracking semantics\<close>

text \<open>
  The three patterns of the source use literals, one-character classes, \<open>\b\<close>,
  sequence, ordered alternation, the greedy \<open>?\<close>, and greedy repetition of a
  one-character class (\<open>\s*\<close>, \<open>\d+\<close>, \<open>[A-Z]{3,7}\<close>). A matcher state is the text
  before the cursor (reversed) and the text after it. \<open>rmatch\<close> lists the states in
  which a match of the expression can end, in the order in which a backtracking
  matcher tries them, so the head of the list is the match Python reports.
\<close>

datatype regex =
    Eps
  | Chr char
  | Cls "char \<Rightarrow> bool"
  | WordB
  | Seq regex regex
  | Alt regex regex
  | Opt regex
  | Rep nat "nat option" "char \<Rightarrow> bool"

type_synonym cursor = "string \<times> string"

definition chr_eq :: "bool \<Rightarrow> char \<Rightarrow> char \<Rightarrow> bool" where
  "chr_eq ic p c = (if ic then lower_char p = lower_char c else p = c)"

definition cls_ok :: "bool \<Rightarrow> (char \<Rightarrow> bool) \<Rightarrow> char \<Rightarrow> bool" where
  "cls_ok ic P c = (if ic then P c \<or> P (lower_char c) \<or> P (upper_char c) else P c)"

definition at_boundary :: "cursor \<Rightarrow> bool" where
  "at_boundary cur =
     ((case fst cur of [] \<Rightarrow> False | b # _ \<Rightarrow> is_word b) \<noteq>
      (case snd cur of [] \<Rightarrow> False | a # _ \<Rightarrow> is_word a))"

definition advance :: "nat \<Rightarrow> cursor \<Rightarrow> cursor" where
  "advance j cur = (rev (take j (snd cur)) @ fst cur, drop j (snd cur))"

fun rmatch :: "bool \<Rightarrow> regex \<Rightarrow> cursor \<Rightarrow> cursor list" where
  "rmatch ic Eps cur = [cur]"
| "rmatch ic (Chr p) cur =
     (case snd cur of [] \<Rightarrow> [] | c # cs \<Rightarrow> if chr_eq ic p c then [advance 1 cur] else [])"
| "rmatch ic (Cls P) cur =
     (case snd cur of [] \<Rightarrow> [] | c # cs \<Rightarrow> if cls_ok ic P c then [advance 1 cur] else [])"
| "rmatch ic WordB cur = (if at_boundary cur then [cur] else [])"
| "rmatch ic (Seq a b) cur = concat (map (rmatch ic b) (rmatch ic a cur))"
| "rmatch ic (Alt a b) cur = rmatch ic a cur @ rmatch ic b cur"
| "rmatch ic (Opt a) cur = rmatch ic a cur @ [cur]"
| "rmatch ic (Rep lo hi P) cur =
     (let run = length (takeWhile (cls_ok ic P) (snd cur));
          top = (case hi of None \<Rightarrow> run | Some h \<Rightarrow> min h run)
      in map (\<lambda>j. advance j cur) (rev [lo ..< Suc top]))"

text \<open>A literal word, and an ordered alternation of several expressions.\<close>

fun lit :: "string \<Rightarrow> regex" where
  "lit [] = Eps"
| "lit [c] = Chr c"
| "lit (c # cs) = Seq (Chr c) (lit cs)"

fun alts :: "regex list \<Rightarrow> regex" where
  "alts [] = Eps"
| "alts [r] = r"
| "alts (r # rs) = Alt r (alts rs)"

text \<open>
  Each pattern of the source has exactly one capturing group, which every match goes
  through: a pattern is the expression before the group, the group, the expression
  after it, and the IGNORECASE flag.
\<close>

record pattern =
  before_grp :: regex
  grp :: regex
  after_grp :: regex
  ignorecase :: bool

text \<open>Group 1 of every way to match the pattern with the cursor as start, first choice first.\<close>

definition match_here :: "pattern \<Rightarrow> cursor \<Rightarrow> string list" where
  "match_here p cur =
     concat (map (\<lambda>c1.
       concat (map (\<lambda>c2.
         map (\<lambda>c3. take (length (snd c1) - length (snd c2)) (snd c1))
             (rmatch (ignorecase p) (after_grp p) c2))
         (rmatch (ignorecase p) (grp p) c1)))
       (rmatch (ignorecase p) (before_grp p) cur))"

text \<open>\<open>pattern.search(text)\<close>: the leftmost start with a match; the result is \<open>group(1)\<close>.\<close>

fun search_from :: "pattern \<Rightarrow> string \<Rightarrow> string \<Rightarrow> string option" where
  "search_from p bef [] = (case match_here p (bef, []) of [] \<Rightarrow> None | g # _ \<Rightarrow> Some g)"
| "search_from p bef (c # cs) =
     (case match_here p (bef, c # cs) of
        [] \<Rightarrow> search_from p (c # bef) cs
      | g # _ \<Rightarrow> Some g)"

definition re_search :: "pattern \<Rightarrow> string \<Rightarrow> string option" where
  "re_search p text = search_from p [] text"

text \<open>
  A notion for the proofs: every character an expression can consume satisfies \<open>Q\<close>.
\<close>

fun consumes :: "bool \<Rightarrow> (char \<Rightarrow> bool) \<Rightarrow> regex \<Rightarrow> bool" where
  "consumes ic Q Eps = True"
| "consumes ic Q (Chr p) = (\<forall>c. chr_eq ic p c \<longrightarrow> Q c)"
| "consumes ic Q (Cls P) = (\<forall>c. cls_ok ic P c \<longrightarrow> Q c)"
| "consumes ic Q WordB = True"
| "consumes ic Q (Seq a b) = (consumes ic Q a \<and> consumes ic Q b)"
| "consumes ic Q (Alt a b) = (consumes ic Q a \<and> consumes ic Q b)"
| "consumes ic Q (Opt a) = consumes ic Q a"
| "consumes ic Q (Rep lo hi P) = (\<forall>c. cls_ok ic P c \<longrightarrow> Q c)"

subsection \<open>The patterns of the source\<close>

definition quote_currencies :: "string list" where
  "quote_currencies = [''USD'', ''JPY'', ''EUR'', ''GBP'', ''AUD'', ''NZD'', ''CHF'', ''CAD'']"

definition SYMBOL_PATTERN :: pattern where
  "SYMBOL_PATTERN =
     \<lparr> before_grp = WordB,
       grp = Seq (Rep 3 (Some 7) is_upper) (Opt (alts (map lit quote_currencies))),
       after_grp = WordB,
       ignorecase = False \<rparr>"

definition is_colon_eq :: "char \<Rightarrow> bool" where
  "is_colon_eq c = (c = CHR '':'' \<or> c = CHR ''='')"

definition LOT_PATTERN :: pattern where
  "LOT_PATTERN =
     \<lparr> before_grp =
         Seq (Opt (alts [lit ''lot'', lit ''volume'', lit ''vol'']))
          (Seq (Rep 0 None is_space) (Seq (Opt (Cls is_colon_eq)) (Rep 0 None is_space))),
       grp = Seq (Rep 1 None is_digit) (Opt (Seq (Chr CHR ''.'') (Rep 1 None is_digit))),
       after_grp = Eps,
       ignorecase = True \<rparr>"

definition SIDE_PATTERN :: pattern where
  "SIDE_PATTERN =
     \<lparr> before_grp = WordB,
       grp = alts [lit ''BUY'', lit ''SELL''],
       after_grp = WordB,
       ignorecase = True \<rparr>"

subsection \<open>The first decimal of a text\<close>

text \<open>
  What the search for LOT_PATTERN amounts to, written without regular expressions:
  the text from its first digit on, cut after the digits and, when a dot and a digit
  follow them, after the digits behind the dot.
\<close>

definition decimal_prefix :: "string \<Rightarrow> string" where
  "decimal_prefix s =
     (let ip = takeWhile is_digit s; r = drop (length ip) s
      in case r of
           c # d # _ \<Rightarrow>
             if c = CHR ''.'' \<and> is_digit d then ip @ c # takeWhile is_digit (tl r) else ip
         | _ \<Rightarrow> ip)"

definition first_decimal :: "string \<Rightarrow> string option" where
  "first_decimal text =
     (case dropWhile (\<lambda>c. \<not> is_digit c) text of
        [] \<Rightarrow> None
      | c # cs \<Rightarrow> Some (decimal_prefix (c # cs)))"

section \<open>Floats\<close>

text \<open>
  A Python float is a binary64 value: a rational, or one of the two infinities (no
  operation of the source produces a NaN, and the sign of zero is never observed).
  \<open>float(s)\<close> on the digits LOT_PATTERN captures reads the decimal exactly and
  rounds it to the nearest binary64 value, ties to even; a value beyond the largest
  finite one becomes infinity. The difference of two floats is the exact difference
  rounded in the same way.
\<close>

datatype pyfloat = Finite rat | Infinity | MinusInfinity

definition digit_val :: "char \<Rightarrow> nat" where
  "digit_val c = ord c - 48"

definition digits_val :: "string \<Rightarrow> nat" where
  "digits_val s = foldl (\<lambda>acc c. 10 * acc + digit_val c) 0 s"

definition dec_value :: "string \<Rightarrow> rat" where
  "dec_value s =
     (let ip = takeWhile (\<lambda>c. c \<noteq> CHR ''.'') s;
          fp = drop (Suc (length ip)) s
      in of_nat (digits_val ip) + of_nat (digits_val fp) / of_nat (10 ^ length fp))"

fun bit_length :: "nat \<Rightarrow> nat" where
  "bit_length n = (if n = 0 then 0 else Suc (bit_length (n div 2)))"

declare bit_length.simps [simp del]

definition pow2 :: "int \<Rightarrow> rat" where
  "pow2 e = (if 0 \<le> e then 2 ^ nat e else 1 / 2 ^ nat (- e))"

text \<open>The largest \<open>k\<close> with \<open>2 ^ k \<le> q\<close>, for \<open>q > 0\<close>.\<close>

definition floor_log2 :: "rat \<Rightarrow> int" where
  "floor_log2 q =
     (let (a, b) = quotient_of q;
          k = int (bit_length (nat a)) - int (bit_length (nat b))
      in if pow2 k \<le> q then k else k - 1)"

definition round_half_even :: "rat \<Rightarrow> int" where
  "round_half_even x =
     (let f = \<lfloor>x\<rfloor>; d = x - of_int f
      in if d < 1 / 2 then f else if 1 / 2 < d then f + 1 else if even f then f else f + 1)"

definition round_binary64 :: "rat \<Rightarrow> pyfloat" where
  "round_binary64 q =
     (if q = 0 then Finite 0
      else let e = max (floor_log2 \<bar>q\<bar> - 52) (- 1074);
               v = of_int (round_half_even (q / pow2 e)) * pow2 e
           in if pow2 1024 \<le> v then Infinity
              else if v \<le> - pow2 1024 then MinusInfinity
              else Finite v)"

definition py_float :: "string \<Rightarrow> pyfloat" where
  "py_float s = round_binary64 (dec_value s)"

text \<open>\<open>x <= 0\<close> on floats.\<close>

fun float_le_zero :: "pyfloat \<Rightarrow> bool" where
  "float_le_zero (Finite q) = (q \<le> 0)"
| "float_le_zero Infinity = False"
| "float_le_zero MinusInfinity = True"

text \<open>\<open>x <= r\<close> for a float \<open>x\<close> and a finite float \<open>r\<close>, and \<open>a - b\<close> on finite floats.\<close>

fun float_le :: "pyfloat \<Rightarrow> rat \<Rightarrow> bool" where
  "float_le (Finite q) r = (q \<le> r)"
| "float_le Infinity r = False"
| "float_le MinusInfinity r = True"

definition float_sub :: "rat \<Rightarrow> rat \<Rightarrow> pyfloat" where
  "float_sub a b = round_binary64 (a - b)"

section \<open>Pattern Extractor\<close>

record position =
  symbol :: string
  side :: string
  lot :: pyfloat

definition extract_single_record :: "string \<Rightarrow> position option" where
  "extract_single_record text =
     (case re_search SYMBOL_PATTERN (upper text) of
        None \<Rightarrow> None
      | Some symbol_match \<Rightarrow>
     (case re_search SIDE_PATTERN (upper text) of
        None \<Rightarrow> None
      | Some side_match \<Rightarrow>
     (case re_search LOT_PATTERN text of
        None \<Rightarrow> None
      | Some lot_match \<Rightarrow>
          (let l = py_float lot_match
           in if float_le_zero l then None
              else Some \<lparr> symbol = upper symbol_match, side = upper side_match, lot = l \<rparr>))))"

definition is_token_sep :: "char \<Rightarrow> bool" where
  "is_token_sep c = (c = CHR 0x0A \<or> c = CHR ''|'' \<or> c = CHR '','' \<or> c = CHR '';'')"

definition tokens_of :: "string list \<Rightarrow> string list" where
  "tokens_of texts = filter strip_nonempty (split_on is_token_sep (join [CHR 0x0A] texts))"

text \<open>The window that starts at token \<open>idx\<close>: \<open>" ".join(tokens[idx : idx + 6])\<close>.\<close>

definition window_text :: "string list \<Rightarrow> nat \<Rightarrow> string" where
  "window_text tokens idx = join '' '' (take 6 (drop idx tokens))"

text \<open>The final loop: keep the first occurrence of every (symbol, side, lot).\<close>

fun unique_records :: "position list \<Rightarrow> position list \<Rightarrow> position list" where
  "unique_records seen [] = []"
| "unique_records seen (r # rs) =
     (if r \<in> set seen then unique_records seen rs else r # unique_records (r # seen) rs)"

definition line_records :: "string list \<Rightarrow> position list" where
  "line_records texts = List.map_filter extract_single_record texts"

definition window_records :: "string list \<Rightarrow> position list" where
  "window_records texts =
     (let tokens = tokens_of texts
      in List.map_filter (\<lambda>idx. extract_single_record (window_text tokens idx))
           [0 ..< length tokens])"

definition extract_positions_from_texts :: "string list \<Rightarrow> position list" where
  "extract_positions_from_texts texts =
     unique_records [] (line_records texts @ window_records texts)"

section \<open>Snapshots: \<open>collections.Counter\<close>\<close>

text \<open>
  A Counter is a dict, so it keeps its keys in insertion order: an association list
  with distinct keys. \<open>cget\<close> is \<open>c[k]\<close>, which is 0 for a missing key.
  \<open>Counter(iterable)\<close> counts each element where its key already stands and appends
  new keys. \<open>counter_sub\<close> is \<open>Counter.__sub__\<close> of the standard library: the
  elements of the left operand whose difference is positive, in the left operand's
  order, then the elements only the right operand has with a negative count.
\<close>

type_synonym 'k counter = "('k \<times> int) list"

definition cget :: "'k counter \<Rightarrow> 'k \<Rightarrow> int" where
  "cget c k = (case map_of c k of None \<Rightarrow> 0 | Some n \<Rightarrow> n)"

fun bump :: "'k counter \<Rightarrow> 'k \<Rightarrow> 'k counter" where
  "bump [] k = [(k, 1)]"
| "bump ((k', n) # c) k = (if k' = k then (k', n + 1) # c else (k', n) # bump c k)"

definition Counter :: "'k list \<Rightarrow> 'k counter" where
  "Counter ks = foldl bump [] ks"

definition counter_sub :: "'k counter \<Rightarrow> 'k counter \<Rightarrow> 'k counter" where
  "counter_sub self other =
     map (\<lambda>(elem, count). (elem, count - cget other elem))
       (filter (\<lambda>(elem, count). 0 < count - cget other elem) self) @
     map (\<lambda>(elem, count). (elem, 0 - count))
       (filter (\<lambda>(elem, count). map_of self elem = None \<and> count < 0) other)"

text \<open>
  What every Counter of the program satisfies: the keys of a dict are distinct, and a
  Counter built from an iterable (or empty) has positive counts only.
\<close>

definition wf_counter :: "'k counter \<Rightarrow> bool" where
  "wf_counter c = (distinct (map fst c) \<and> (\<forall>(k, n) \<in> set c. 0 < n))"

type_synonym key = "string \<times> string \<times> pyfloat"

definition key_of :: "position \<Rightarrow> key" where
  "key_of p = (symbol p, side p, lot p)"

section \<open>Events and their JSON text\<close>

text \<open>
  A payload is the dict handed to \<open>_write_signal\<close>, in insertion order.
  \<open>json_dumps\<close> is \<open>json.dumps\<close> on such a dict with \<open>ensure_ascii\<close> and \<open>allow_nan\<close>
  left on: the text of a finite float is that of \<open>float.__repr__\<close>, which is taken
  as a parameter, and the infinities are written \<open>Infinity\<close> and \<open>-Infinity\<close>.
\<close>

datatype jvalue = JStr string | JNum pyfloat

type_synonym payload = "(string \<times> jvalue) list"

definition open_payload :: "key \<Rightarrow> payload" where
  "open_payload k =
     (case k of (smb, sd, l) \<Rightarrow>
        [(''action'', JStr ''OPEN''), (''symbol'', JStr smb),
         (''side'', JStr sd), (''lot'', JNum l)])"

definition close_payload :: "string \<Rightarrow> payload" where
  "close_payload smb = [(''action'', JStr ''CLOSE''), (''symbol'', JStr smb)]"

definition hex_digit :: "nat \<Rightarrow> char" where
  "hex_digit n = ''0123456789abcdef'' ! (n mod 16)"

definition escape_char :: "char \<Rightarrow> string" where
  \<open>escape_char c =
     (if c = CHR ''"'' then [CHR 0x5C, CHR ''"'']
      else if c = CHR 0x5C then [CHR 0x5C, CHR 0x5C]
      else if c = CHR 0x0A then [CHR 0x5C, CHR ''n'']
      else if c = CHR 0x0D then [CHR 0x5C, CHR ''r'']
      else if c = CHR 0x09 then [CHR 0x5C, CHR ''t'']
      else if c = CHR 0x08 then [CHR 0x5C, CHR ''b'']
      else if c = CHR 0x0C then [CHR 0x5C, CHR ''f'']
      else if 32 \<le> ord c \<and> ord c \<le> 126 then [c]
      else [CHR 0x5C, CHR ''u'', CHR ''0'', CHR ''0'', hex_digit (ord c div 16), hex_digit (ord c)])\<close>

definition encode_str :: "string \<Rightarrow> string" where
  \<open>encode_str s = [CHR ''"''] @ concat (map escape_char s) @ [CHR ''"'']\<close>

fun encode_value :: "(pyfloat \<Rightarrow> string) \<Rightarrow> jvalue \<Rightarrow> string" where
  "encode_value frepr (JStr s) = encode_str s"
| "encode_value frepr (JNum (Finite q)) = frepr (Finite q)"
| "encode_value frepr (JNum Infinity) = ''Infinity''"
| "encode_value frepr (JNum MinusInfinity) = ''-Infinity''"

definition json_dumps :: "(pyfloat \<Rightarrow> string) \<Rightarrow> string \<Rightarrow> string \<Rightarrow> bool \<Rightarrow> payload \<Rightarrow> string" where
  "json_dumps frepr item_sep key_sep sort_keys dct =
     ''{'' @ join item_sep
        (map (\<lambda>(k, v). encode_str k @ key_sep @ encode_value frepr v)
           (if sort_keys then sort_key fst dct else dct)) @ ''}''"

text \<open>\<open>json.dumps(payload, sort_keys=True)\<close> and \<open>json.dumps(payload, separators=(",", ":"))\<close>.\<close>

definition signature_of :: "(pyfloat \<Rightarrow> string) \<Rightarrow> payload \<Rightarrow> string" where
  "signature_of frepr payload = json_dumps frepr '', '' '': '' True payload"

definition compact_json :: "(pyfloat \<Rightarrow> string) \<Rightarrow> payload \<Rightarrow> string" where
  "compact_json frepr payload = json_dumps frepr '','' '':'' False payload"

section \<open>Reconciler: the events of \<open>_emit_deltas\<close>\<close>

text \<open>The payloads the two loops hand to \<open>_write_signal\<close>, in order.\<close>

definition open_events :: "key counter \<Rightarrow> key counter \<Rightarrow> payload list" where
  "open_events prev current =
     concat (map (\<lambda>(k, count). replicate (nat count) (open_payload k))
       (counter_sub current prev))"

definition close_events :: "key counter \<Rightarrow> key counter \<Rightarrow> payload list" where
  "close_events prev current =
     concat (map (\<lambda>(k, count). replicate (nat count) (close_payload (fst k)))
       (counter_sub prev current))"

definition delta_events :: "key counter \<Rightarrow> key counter \<Rightarrow> payload list" where
  "delta_events prev current = open_events prev current @ close_events prev current"

text \<open>
  The Open events that the first loop hands over before it reaches the key \<open>k\<close>.
\<close>

definition opens_before :: "key \<Rightarrow> key counter \<Rightarrow> key counter \<Rightarrow> payload list" where
  "opens_before k prev current =
     concat (map (\<lambda>(k', count). replicate (nat count) (open_payload k'))
       (takeWhile (\<lambda>(k', count). k' \<noteq> k) (counter_sub current prev)))"

section \<open>Bridge state, debounce cache and publisher\<close>

text \<open>
  The state is the two attributes of \<open>SignalBridge\<close> that change, the two files of the
  bridge directory, and a history of the texts that reached the signal file.
  Time stamps are the finite floats \<open>time.time()\<close> returns, held as the rationals
  they denote; their difference is taken in binary64. The world outside is a
  parameter: the text of a float, what \<open>time.time()\<close> returns in the \<open>i\<close>-th call of
  \<open>_write_signal\<close> of a cycle, and whether the file operations of that call succeed.
\<close>

datatype error = CaptureError | OSError

datatype io_outcome = IoOk | WriteRaises nat | ReplaceRaises

record world =
  float_repr :: "pyfloat \<Rightarrow> string"
  clock :: "nat \<Rightarrow> rat"
  disk :: "nat \<Rightarrow> io_outcome"

record bridge =
  prev_positions :: "key counter"
  recent_signals :: "string \<rightharpoonup> rat"
  tmp_file :: "string option"
  signal_file :: "string option"
  published :: "string list"

definition recent_ttl_seconds :: rat where
  "recent_ttl_seconds = 5"

definition init_bridge :: bridge where
  "init_bridge =
     \<lparr> prev_positions = [], recent_signals = Map.empty, tmp_file = None,
       signal_file = None, published = [] \<rparr>"

text \<open>
  The dict comprehension that cleans old entries: it keeps the entries with
  \<open>now - ts <= self.recent_ttl_seconds\<close>, a comparison of floats.
\<close>

definition prune :: "rat \<Rightarrow> (string \<rightharpoonup> rat) \<Rightarrow> (string \<rightharpoonup> rat)" where
  "prune now cache =
     (\<lambda>sig. case cache sig of
        None \<Rightarrow> None
      | Some ts \<Rightarrow> if float_le (float_sub now ts) recent_ttl_seconds then Some ts else None)"

definition write_signal :: "world \<Rightarrow> nat \<Rightarrow> payload \<Rightarrow> bridge \<Rightarrow> bridge \<times> error option" where
  "write_signal w i payload s =
     (let signature = signature_of (float_repr w) payload;
          now = clock w i;
          s1 = s\<lparr>recent_signals := prune now (recent_signals s)\<rparr>
      in if recent_signals s1 signature \<noteq> None then (s1, None)
         else
           (let content = compact_json (float_repr w) payload
            in case disk w i of
                 WriteRaises n \<Rightarrow> (s1\<lparr>tmp_file := Some (take n content)\<rparr>, Some OSError)
               | ReplaceRaises \<Rightarrow> (s1\<lparr>tmp_file := Some content\<rparr>, Some OSError)
               | IoOk \<Rightarrow>
                   (s1\<lparr>tmp_file := None, signal_file := Some content,
                       published := published s1 @ [content],
                       recent_signals := (recent_signals s1)(signature \<mapsto> now)\<rparr>, None)))"

text \<open>The loops of \<open>_emit_deltas\<close>: an exception ends them.\<close>

fun write_all :: "world \<Rightarrow> nat \<Rightarrow> payload list \<Rightarrow> bridge \<Rightarrow> bridge \<times> error option" where
  "write_all w i [] s = (s, None)"
| "write_all w i (p # ps) s =
     (case write_signal w i p s of
        (s', Some e) \<Rightarrow> (s', Some e)
      | (s', None) \<Rightarrow> write_all w (Suc i) ps s')"

definition emit_deltas :: "world \<Rightarrow> key counter \<Rightarrow> bridge \<Rightarrow> bridge \<times> error option" where
  "emit_deltas w current s =
     (case write_all w 0 (delta_events (prev_positions s) current) s of
        (s', Some e) \<Rightarrow> (s', Some e)
      | (s', None) \<Rightarrow> (s'\<lparr>prev_positions := current\<rparr>, None))"

section \<open>Driver loop\<close>

text \<open>
  What the capture collaborators deliver in one cycle: the \<open>text\<close> and
  \<open>content-desc\<close> attributes of the nodes of the UI dump (empty when absent), and the
  lines of the OCR text (none when the fallback is unavailable); either can raise.
\<close>

record capture =
  ui_nodes :: "error + (string \<times> string) list"
  ocr_lines :: "error + string list"

definition chunks_of :: "(string \<times> string) list \<Rightarrow> string list" where
  "chunks_of nodes =
     concat (map (\<lambda>(text, desc).
       (if strip text \<noteq> [] then [strip text] else []) @
       (if strip desc \<noteq> [] then [strip desc] else [])) nodes)"

definition read_live_positions :: "capture \<Rightarrow> error + key counter" where
  "read_live_positions cap =
     (case ui_nodes cap of
        Inl e \<Rightarrow> Inl e
      | Inr nodes \<Rightarrow>
          (let positions = extract_positions_from_texts (chunks_of nodes)
           in if positions = [] then
                (case ocr_lines cap of
                   Inl e \<Rightarrow> Inl e
                 | Inr lines \<Rightarrow>
                     Inr (Counter (map key_of
                       (extract_positions_from_texts (filter strip_nonempty (map strip lines))))))
              else Inr (Counter (map key_of positions))))"

text \<open>One turn of the loop of \<open>run\<close>: the error, if any, is logged and the loop goes on.\<close>

definition run_cycle :: "world \<Rightarrow> capture \<Rightarrow> bridge \<Rightarrow> bridge \<times> error option" where
  "run_cycle w cap s =
     (case read_live_positions cap of
        Inl e \<Rightarrow> (s, Some e)
      | Inr current \<Rightarrow> emit_deltas w current s)"

section \<open>Example worlds\<close>

text \<open>
  The text \<open>float.__repr__\<close> gives for the floats of the examples, which are
  \<open>1.0\<close>, \<open>2.0\<close>, \<open>3.0\<close> and \<open>0.5\<close>.
\<close>

definition demo_repr :: "pyfloat \<Rightarrow> string" where
  "demo_repr f =
     (if f = Finite 1 then ''1.0'' else if f = Finite 2 then ''2.0''
      else if f = Finite 3 then ''3.0'' else ''0.5'')"

text \<open>A world in which the replace of the call with index \<open>k\<close> fails; the clock stands still.\<close>

definition failing_world :: "nat \<Rightarrow> world" where
  "failing_world k =
     \<lparr> float_repr = demo_repr,
       clock = (\<lambda>i. 0),
       disk = (\<lambda>i. if i = k then ReplaceRaises else IoOk) \<rparr>"

text \<open>
  A world in which the \<open>i\<close>-th call reads the time \<open>i * gap\<close>, and only the file
  operations of the first call can fail.
\<close>

definition demo_world :: "io_outcome \<Rightarrow> rat \<Rightarrow> world" where
  "demo_world first_io gap =
     \<lparr> float_repr = demo_repr,
       clock = (\<lambda>i. of_nat i * gap),
       disk = (\<lambda>i. if i = 0 then first_io else IoOk) \<rparr>"

text \<open>A world whose clock reads \<open>t\<close> during the whole cycle; no file operation fails.\<close>

definition steady_world :: "rat \<Rightarrow> world" where
  "steady_world t = \<lparr> float_repr = demo_repr, clock = (\<lambda>i. t), disk = (\<lambda>i. IoOk) \<rparr>"

text \<open>
  A world whose first call reads the float \<open>0.2\<close> and whose later calls read the
  float \<open>5.2\<close>: the binary64 values next to the two decimals.
\<close>

definition boundary_world :: world where
  "boundary_world =
     \<lparr> float_repr = demo_repr,
       clock = (\<lambda>i. if i = 0 then 3602879701896397 / 18014398509481984
                     else 5854679515581645 / 1125899906842624),
       disk = (\<lambda>i. IoOk) \<rparr>"

text \<open>Two keys for the examples.\<close>

definition eurusd_buy :: key where
  "eurusd_buy = (''EURUSD'', ''BUY'', Finite 1)"

definition gbpusd_sell :: key where
  "gbpusd_sell = (''GBPUSD'', ''SELL'', Finite 2)"

section \<open>Properties of snapshots and of the reconciler\<close>

lemma map_of_map_filter:
  "distinct (map fst xs) \<Longrightarrow>
   map_of (map (\<lambda>(k, v). (k, f k v)) (filter (\<lambda>(k, v). P k v) xs)) k =
     (case map_of xs k of None \<Rightarrow> None | Some v \<Rightarrow> if P k v then Some (f k v) else None)"
proof (induction xs)
  case Nil
  show ?case by simp
next
  case (Cons x xs)
  obtain k' v' where x: "x = (k', v')" by (cases x)
  from Cons.prems x have nk: "k' \<notin> fst ` set xs" and d: "distinct (map fst xs)" by auto
  from nk have none: "map_of xs k' = None" by (simp add: map_of_eq_None_iff)
  show ?case using Cons.IH [OF d] x none by (auto split: option.splits)
qed

lemma cget_counter_sub:
  assumes "distinct (map fst self)" and "distinct (map fst other)"
  shows "cget (counter_sub self other) k = max 0 (cget self k - cget other k)"
proof -
  let ?p1 = "map (\<lambda>(elem, count). (elem, count - cget other elem))
       (filter (\<lambda>(elem, count). 0 < count - cget other elem) self)"
  let ?p2 = "map (\<lambda>(elem, count). (elem, 0 - count))
       (filter (\<lambda>(elem, count). map_of self elem = None \<and> count < 0) other)"
  have m1: "map_of ?p1 k =
     (case map_of self k of None \<Rightarrow> None
      | Some v \<Rightarrow> if 0 < v - cget other k then Some (v - cget other k) else None)"
    using map_of_map_filter [OF assms(1), of "\<lambda>k v. v - cget other k" "\<lambda>k v. 0 < v - cget other k" k]
    by simp
  have m2: "map_of ?p2 k =
      (case map_of other k of None \<Rightarrow> None
       | Some v \<Rightarrow> if map_of self k = None \<and> v < 0 then Some (0 - v) else None)"
    using map_of_map_filter [OF assms(2), of "\<lambda>k v. 0 - v" "\<lambda>k v. map_of self k = None \<and> v < 0" k]
    by simp
  show ?thesis
    using m1 m2
    by (auto simp add: cget_def counter_sub_def map_add_def split: option.splits)
qed

lemma counter_sub_wf:
  assumes "wf_counter other"
  shows "counter_sub self other =
     map (\<lambda>(elem, count). (elem, count - cget other elem))
       (filter (\<lambda>(elem, count). 0 < count - cget other elem) self)"
proof -
  have "filter (\<lambda>(elem, count). map_of self elem = None \<and> count < 0) other = []"
    using assms by (auto simp add: wf_counter_def filter_empty_conv)
  then show ?thesis by (simp add: counter_sub_def)
qed

lemma cget_in:
  "distinct (map fst c) \<Longrightarrow> (k, n) \<in> set c \<Longrightarrow> cget c k = n"
  by (simp add: cget_def)

lemma concat_replicate_filter:
  "concat (map (\<lambda>(k, n). replicate (nat (g k n)) (f k)) (filter (\<lambda>(k, n). 0 < g k n) xs)) =
   concat (map (\<lambda>(k, n). replicate (nat (g k n)) (f k)) xs)"
  by (induction xs) auto

lemma events_by_key:
  assumes "distinct (map fst self)" and "wf_counter other"
  shows "concat (map (\<lambda>(k, count). replicate (nat count) (f k)) (counter_sub self other)) =
         concat (map (\<lambda>k. replicate (nat (max 0 (cget self k - cget other k))) (f k)) (map fst self))"
proof -
  have "concat (map (\<lambda>(k, count). replicate (nat count) (f k)) (counter_sub self other)) =
        concat (map (\<lambda>(k, n). replicate (nat (n - cget other k)) (f k))
          (filter (\<lambda>(k, n). 0 < n - cget other k) self))"
    by (simp add: counter_sub_wf [OF assms(2)] comp_def case_prod_unfold)
  also have "\<dots> = concat (map (\<lambda>(k, n). replicate (nat (n - cget other k)) (f k)) self)"
    by (rule concat_replicate_filter)
  also have "\<dots> = concat (map (\<lambda>k. replicate (nat (max 0 (cget self k - cget other k))) (f k)) (map fst self))"
  proof -
    have h: "map (\<lambda>(k, n). replicate (nat (n - cget other k)) (f k)) self =
          map ((\<lambda>k. replicate (nat (max 0 (cget self k - cget other k))) (f k)) \<circ> fst) self"
      by (rule map_cong) (auto simp add: max_def cget_in [OF assms(1)])
    show ?thesis by (simp only: map_map h)
  qed
  finally show ?thesis .
qed

lemma open_events_by_key:
  "distinct (map fst cur) \<Longrightarrow> wf_counter prev \<Longrightarrow>
   open_events prev cur =
     concat (map (\<lambda>k. replicate (nat (max 0 (cget cur k - cget prev k))) (open_payload k)) (map fst cur))"
  unfolding open_events_def by (rule events_by_key)

lemma close_events_by_key:
  "distinct (map fst prev) \<Longrightarrow> wf_counter cur \<Longrightarrow>
   close_events prev cur =
     concat (map (\<lambda>k. replicate (nat (max 0 (cget prev k - cget cur k))) (close_payload (fst k))) (map fst prev))"
  unfolding close_events_def by (rule events_by_key)


lemma count_list_replicate_eq: "count_list (replicate n x) y = (if x = y then n else 0)"
  by (induction n) auto

lemma count_list_concat_replicate:
  "distinct ks \<Longrightarrow> inj f \<Longrightarrow>
   count_list (concat (map (\<lambda>k. replicate (n k) (f k)) ks)) (f k0) =
     (if k0 \<in> set ks then n k0 else 0)"
  by (induction ks) (auto simp add: count_list_replicate_eq dest: injD)

lemma count_list_concat_replicate_fst:
  "inj g \<Longrightarrow>
   count_list (concat (map (\<lambda>k. replicate (n k) (g (fst k))) ks)) (g s) =
     sum_list (map n (filter (\<lambda>k. fst k = s) ks))"
  by (induction ks) (auto simp add: count_list_replicate_eq dest: injD)

lemma length_concat_replicate:
  "length (concat (map (\<lambda>k. replicate (n k) (f k)) ks)) = sum_list (map n ks)"
  by (induction ks) auto

lemma inj_open_payload: "inj open_payload"
  by (rule injI) (auto simp add: open_payload_def)

lemma inj_close_payload: "inj close_payload"
  by (rule injI) (simp add: close_payload_def)

lemma cget_notin: "k \<notin> fst ` set c \<Longrightarrow> cget c k = 0"
  by (simp add: cget_def map_of_eq_None_iff [THEN iffD2])

lemma cget_nonneg: "wf_counter c \<Longrightarrow> 0 \<le> cget c k"
proof (cases "map_of c k")
  case None
  then show ?thesis by (simp add: cget_def)
next
  case (Some n)
  assume "wf_counter c"
  moreover from Some have "(k, n) \<in> set c" by (rule map_of_SomeD)
  ultimately have "0 < n" by (auto simp add: wf_counter_def)
  with Some show ?thesis by (simp add: cget_def)
qed

lemma bump_keys: "fst ` set (bump c k) = insert k (fst ` set c)"
  by (induction c k rule: bump.induct) auto

lemma bump_wf: "wf_counter c \<Longrightarrow> wf_counter (bump c k)"
proof (induction c k rule: bump.induct)
  case (1 k)
  show ?case by (simp add: wf_counter_def)
next
  case (2 k' n c k)
  from "2.prems" have wc: "wf_counter c" and nk: "k' \<notin> fst ` set c" and pn: "0 < n"
    by (auto simp add: wf_counter_def)
  show ?case
  proof (cases "k' = k")
    case True
    with "2.prems" show ?thesis by (auto simp add: wf_counter_def)
  next
    case False
    from "2.IH" [OF False wc] have w: "wf_counter (bump c k)" .
    from nk False have "k' \<notin> fst ` set (bump c k)" by (simp add: bump_keys)
    with w pn False show ?thesis by (auto simp add: wf_counter_def)
  qed
qed

lemma foldl_bump_wf: "wf_counter c \<Longrightarrow> wf_counter (foldl bump c ks)"
  by (induction ks arbitrary: c) (simp_all add: bump_wf)

lemma Counter_wf: "wf_counter (Counter ks)"
  unfolding Counter_def by (rule foldl_bump_wf) (simp add: wf_counter_def)

lemma Counter_example_A:
  "Counter [eurusd_buy, eurusd_buy, gbpusd_sell] = [(eurusd_buy, 2), (gbpusd_sell, 1)]"
  by (simp add: Counter_def eurusd_buy_def gbpusd_sell_def)

lemma Counter_example_B:
  "Counter [gbpusd_sell, gbpusd_sell, gbpusd_sell, eurusd_buy] = [(gbpusd_sell, 3), (eurusd_buy, 1)]"
  by (simp add: Counter_def eurusd_buy_def gbpusd_sell_def)

lemma example_keys_differ [simp]: "eurusd_buy \<noteq> gbpusd_sell" "gbpusd_sell \<noteq> eurusd_buy"
  by (simp_all add: eurusd_buy_def gbpusd_sell_def)

text \<open>
  Claim C1. For all Snapshots \<open>A\<close> (previous) and \<open>B\<close> (current), the reconciler emits,
  for every key \<open>k\<close> of \<open>B\<close> in turn, \<open>max 0 (B[k] - A[k])\<close> Open events that carry the
  symbol, side and size of \<open>k\<close>, and then for every key \<open>k\<close> of \<open>A\<close> in turn
  \<open>max 0 (A[k] - B[k])\<close> Close events that carry the symbol of \<open>k\<close>. So the Open event
  of \<open>k\<close> occurs exactly \<open>max 0 (B[k] - A[k])\<close> times, the Close event of a symbol once
  for every unit that a key with this symbol lost, the totals are the sums over the
  keys, and adding the opens to \<open>A\<close> and taking the closes away gives the counts of \<open>B\<close>.
\<close>

theorem reconcile_per_key:
  assumes "wf_counter A" and "wf_counter B"
  shows "open_events A B =
           concat (map (\<lambda>k. replicate (nat (max 0 (cget B k - cget A k))) (open_payload k))
             (map fst B)) \<and>
         close_events A B =
           concat (map (\<lambda>k. replicate (nat (max 0 (cget A k - cget B k))) (close_payload (fst k)))
             (map fst A)) \<and>
         count_list (open_events A B) (open_payload k) = nat (max 0 (cget B k - cget A k)) \<and>
         count_list (close_events A B) (close_payload smb) =
           sum_list (map (\<lambda>k'. nat (max 0 (cget A k' - cget B k')))
             (filter (\<lambda>k'. fst k' = smb) (map fst A))) \<and>
         length (open_events A B) =
           sum_list (map (\<lambda>k'. nat (max 0 (cget B k' - cget A k'))) (map fst B)) \<and>
         length (close_events A B) =
           sum_list (map (\<lambda>k'. nat (max 0 (cget A k' - cget B k'))) (map fst A)) \<and>
         cget (counter_sub B A) k = max 0 (cget B k - cget A k) \<and>
         cget (counter_sub A B) k = max 0 (cget A k - cget B k) \<and>
         cget A k + cget (counter_sub B A) k - cget (counter_sub A B) k = cget B k \<and>
         cget A k + int (count_list (open_events A B) (open_payload k))
           - cget (counter_sub A B) k = cget B k"
proof -
  from assms have dA: "distinct (map fst A)" and dB: "distinct (map fst B)"
    by (simp_all add: wf_counter_def)
  note oe = open_events_by_key [OF dB assms(1)]
  note ce = close_events_by_key [OF dA assms(2)]
  have sB: "cget (counter_sub B A) k = max 0 (cget B k - cget A k)"
    by (rule cget_counter_sub [OF dB dA])
  have sA: "cget (counter_sub A B) k = max 0 (cget A k - cget B k)"
    by (rule cget_counter_sub [OF dA dB])
  have co: "count_list (open_events A B) (open_payload k) = nat (max 0 (cget B k - cget A k))"
  proof (cases "k \<in> set (map fst B)")
    case True
    then show ?thesis
      by (simp only: oe count_list_concat_replicate [OF dB inj_open_payload] if_True)
  next
    case False
    then have "cget B k = 0" by (simp add: cget_notin)
    moreover have "0 \<le> cget A k" by (rule cget_nonneg [OF assms(1)])
    ultimately have z: "nat (max 0 (cget B k - cget A k)) = 0" by simp
    from False show ?thesis
      by (simp only: oe count_list_concat_replicate [OF dB inj_open_payload] if_False z)
  qed
  have cc: "count_list (close_events A B) (close_payload smb) =
           sum_list (map (\<lambda>k'. nat (max 0 (cget A k' - cget B k')))
             (filter (\<lambda>k'. fst k' = smb) (map fst A)))"
    by (simp only: ce count_list_concat_replicate_fst [OF inj_close_payload])
  have lo: "length (open_events A B) =
           sum_list (map (\<lambda>k'. nat (max 0 (cget B k' - cget A k'))) (map fst B))"
    by (simp only: oe length_concat_replicate)
  have lc: "length (close_events A B) =
           sum_list (map (\<lambda>k'. nat (max 0 (cget A k' - cget B k'))) (map fst A))"
    by (simp only: ce length_concat_replicate)
  have ap: "cget A k + cget (counter_sub B A) k - cget (counter_sub A B) k = cget B k"
    by (simp add: sA sB)
  have ap2: "cget A k + int (count_list (open_events A B) (open_payload k))
           - cget (counter_sub A B) k = cget B k"
    by (simp add: co sA)
  from oe ce co cc lo lc sB sA ap ap2 show ?thesis by blast
qed


theorem reconcile_per_key_witness:
  "wf_counter (Counter [eurusd_buy, eurusd_buy, gbpusd_sell]) \<and>
   wf_counter (Counter [gbpusd_sell, gbpusd_sell, gbpusd_sell, eurusd_buy]) \<and>
   open_events (Counter [eurusd_buy, eurusd_buy, gbpusd_sell])
     (Counter [gbpusd_sell, gbpusd_sell, gbpusd_sell, eurusd_buy]) =
     [open_payload gbpusd_sell, open_payload gbpusd_sell] \<and>
   close_events (Counter [eurusd_buy, eurusd_buy, gbpusd_sell])
     (Counter [gbpusd_sell, gbpusd_sell, gbpusd_sell, eurusd_buy]) =
     [close_payload ''EURUSD''] \<and>
   count_list (open_events (Counter [eurusd_buy, eurusd_buy, gbpusd_sell])
     (Counter [gbpusd_sell, gbpusd_sell, gbpusd_sell, eurusd_buy])) (open_payload gbpusd_sell) = 2"
proof -
  let ?A = "Counter [eurusd_buy, eurusd_buy, gbpusd_sell]"
  let ?B = "Counter [gbpusd_sell, gbpusd_sell, gbpusd_sell, eurusd_buy]"
  have c: "cget ?A eurusd_buy = 2" "cget ?A gbpusd_sell = 1"
          "cget ?B eurusd_buy = 1" "cget ?B gbpusd_sell = 3"
    by (simp_all add: cget_def Counter_example_A Counter_example_B)
  have k: "map fst ?A = [eurusd_buy, gbpusd_sell]" "map fst ?B = [gbpusd_sell, eurusd_buy]"
    by (simp_all add: Counter_example_A Counter_example_B)
  have f: "fst eurusd_buy = ''EURUSD''" by (simp add: eurusd_buy_def)
  have wA: "wf_counter ?A" and wB: "wf_counter ?B" by (rule Counter_wf)+
  note r = reconcile_per_key [OF wA wB, of gbpusd_sell "''EURUSD''"]
  from r have "open_events ?A ?B =
           concat (map (\<lambda>k. replicate (nat (max 0 (cget ?B k - cget ?A k))) (open_payload k))
             (map fst ?B))" by (rule conjunct1)
  then have oe: "open_events ?A ?B = [open_payload gbpusd_sell, open_payload gbpusd_sell]"
    by (simp add: k c eval_nat_numeral)
  from r have "close_events ?A ?B =
           concat (map (\<lambda>k. replicate (nat (max 0 (cget ?A k - cget ?B k))) (close_payload (fst k)))
             (map fst ?A))" by blast
  then have ce: "close_events ?A ?B = [close_payload ''EURUSD'']"
    by (simp add: k c f)
  from r have "count_list (open_events ?A ?B) (open_payload gbpusd_sell) =
      nat (max 0 (cget ?B gbpusd_sell - cget ?A gbpusd_sell))" by blast
  then have co: "count_list (open_events ?A ?B) (open_payload gbpusd_sell) = 2"
    by (simp add: c)
  from wA wB oe ce co show ?thesis by blast
qed


text \<open>
  Claim C7 fails as stated: a Counter iterates in insertion order and the reconciler
  does not sort, so two Snapshots that are equal as multisets but were accumulated in
  a different order give the Open events (and the Close events) in a different order.
\<close>

theorem emission_order_counterexample:
  "mset [eurusd_buy, gbpusd_sell] = mset [gbpusd_sell, eurusd_buy] \<and>
   open_events [] (Counter [eurusd_buy, gbpusd_sell]) \<noteq>
   open_events [] (Counter [gbpusd_sell, eurusd_buy]) \<and>
   close_events (Counter [eurusd_buy, gbpusd_sell]) [] \<noteq>
   close_events (Counter [gbpusd_sell, eurusd_buy]) []"
  by (simp add: Counter_def open_events_def close_events_def counter_sub_def cget_def
        open_payload_def close_payload_def eurusd_buy_def gbpusd_sell_def)


text \<open>
  Claim C7, amended. The Open events come in the insertion order of the current
  Snapshot and the Close events in the insertion order of the previous Snapshot. So
  for two runs whose Snapshots are equal as multisets, the Open events are emitted in
  the same order whenever the two current Snapshots list their keys in the same
  order (however the previous ones were accumulated), and the Close events whenever
  the two previous Snapshots list their keys in the same order.
\<close>

theorem emission_order_by_insertion:
  assumes "wf_counter A" and "wf_counter A'" and "wf_counter B" and "wf_counter B'"
      and "\<forall>k. cget A k = cget A' k" and "\<forall>k. cget B k = cget B' k"
  shows "(map fst B = map fst B' \<longrightarrow> open_events A B = open_events A' B') \<and>
         (map fst A = map fst A' \<longrightarrow> close_events A B = close_events A' B') \<and>
         open_events A B =
           concat (map (\<lambda>k. replicate (nat (max 0 (cget B k - cget A k))) (open_payload k))
             (map fst B)) \<and>
         close_events A B =
           concat (map (\<lambda>k. replicate (nat (max 0 (cget A k - cget B k))) (close_payload (fst k)))
             (map fst A))"
proof -
  from assms have d: "distinct (map fst A)" "distinct (map fst A')"
      "distinct (map fst B)" "distinct (map fst B')"
    by (simp_all add: wf_counter_def)
  note o1 = open_events_by_key [OF d(3) assms(1)]
  note o2 = open_events_by_key [OF d(4) assms(2)]
  note c1 = close_events_by_key [OF d(1) assms(3)]
  note c2 = close_events_by_key [OF d(2) assms(4)]
  from assms(5) have fA: "cget A = cget A'" by (intro ext) blast
  from assms(6) have fB: "cget B = cget B'" by (intro ext) blast
  have "map fst B = map fst B' \<longrightarrow> open_events A B = open_events A' B'"
    by (simp only: o1 o2 fA fB) simp
  moreover have "map fst A = map fst A' \<longrightarrow> close_events A B = close_events A' B'"
    by (simp only: c1 c2 fA fB) simp
  ultimately show ?thesis using o1 c1 by blast
qed


theorem emission_order_by_insertion_witness:
  "open_events (Counter [eurusd_buy, gbpusd_sell]) (Counter [gbpusd_sell, gbpusd_sell, eurusd_buy, eurusd_buy]) =
   open_events (Counter [gbpusd_sell, eurusd_buy]) (Counter [gbpusd_sell, gbpusd_sell, eurusd_buy, eurusd_buy]) \<and>
   open_events (Counter [eurusd_buy, gbpusd_sell]) (Counter [gbpusd_sell, gbpusd_sell, eurusd_buy, eurusd_buy]) =
     [open_payload gbpusd_sell, open_payload eurusd_buy]"
proof -
  let ?A = "Counter [eurusd_buy, gbpusd_sell]"
  let ?A' = "Counter [gbpusd_sell, eurusd_buy]"
  let ?B = "Counter [gbpusd_sell, gbpusd_sell, eurusd_buy, eurusd_buy]"
  have cA: "\<forall>k. cget ?A k = cget ?A' k"
    by (auto simp add: Counter_def cget_def)
  have cB: "\<forall>k. cget ?B k = cget ?B k" by simp
  note r = emission_order_by_insertion [OF Counter_wf Counter_wf Counter_wf Counter_wf cA cB]
  from r have eq: "open_events ?A ?B = open_events ?A' ?B" by simp
  from r have "open_events ?A ?B =
           concat (map (\<lambda>k. replicate (nat (max 0 (cget ?B k - cget ?A k))) (open_payload k))
             (map fst ?B))" by blast
  then have "open_events ?A ?B = [open_payload gbpusd_sell, open_payload eurusd_buy]"
    by (simp add: Counter_def cget_def)
  with eq show ?thesis by simp
qed

section \<open>Properties of binary64 rounding\<close>

lemma pow2_powi: "pow2 e = 2 powi e"
  by (simp add: pow2_def power_int_def field_simps)

lemma pow2_pos [simp]: "0 < pow2 e"
  by (simp add: pow2_powi)

lemma pow2_add: "pow2 (a + b) = pow2 a * pow2 b"
  by (simp add: pow2_powi power_int_add)

lemma pow2_mono: "a \<le> b \<Longrightarrow> pow2 a \<le> pow2 b"
  by (simp add: pow2_powi power_int_increasing)

lemma pow2_strict_mono: "a < b \<Longrightarrow> pow2 a < pow2 b"
  by (simp add: pow2_powi power_int_strict_increasing)

lemma pow2_less_iff: "pow2 a < pow2 b \<longleftrightarrow> a < b"
  using pow2_strict_mono [of a b] pow2_mono [of b a] by (cases "a < b") auto

lemma pow2_le_iff: "pow2 a \<le> pow2 b \<longleftrightarrow> a \<le> b"
  using pow2_strict_mono [of b a] pow2_mono [of a b] by (cases "a \<le> b") auto

lemma pow2_nat: "pow2 (int n) = 2 ^ n"
  by (simp add: pow2_def)

lemma bit_length_bounds: "0 < n \<Longrightarrow> 2 ^ (bit_length n - 1) \<le> n \<and> n < 2 ^ bit_length n"
proof (induction n rule: bit_length.induct)
  case (1 n)
  show ?case
  proof (cases "n div 2 = 0")
    case True
    with 1(2) have "n = 1" by (auto simp add: div_eq_0_iff)
    then show ?thesis by (simp add: bit_length.simps)
  next
    case False
    with 1 have ih: "2 ^ (bit_length (n div 2) - 1) \<le> n div 2 \<and> n div 2 < 2 ^ bit_length (n div 2)"
      by simp
    from False have pos: "0 < bit_length (n div 2)" by (simp add: bit_length.simps [of "n div 2"])
    have bl: "bit_length n = Suc (bit_length (n div 2))"
      using 1(2) by (simp add: bit_length.simps [of n])
    from pos obtain m where m: "bit_length (n div 2) = Suc m" by (cases "bit_length (n div 2)") auto
    from ih m have "2 * 2 ^ m \<le> 2 * (n div 2)" and "n div 2 < 2 ^ Suc m" by simp_all
    then have "2 ^ Suc m \<le> n" and "n < 2 ^ Suc (Suc m)" by simp_all
    then show ?thesis by (simp add: bl m)
  qed
qed

lemma bit_length_pos: "0 < n \<Longrightarrow> 0 < bit_length n"
  by (simp add: bit_length.simps [of n])

lemma floor_log2_bounds:
  assumes "0 < q"
  shows "pow2 (floor_log2 q) \<le> q" and "q < pow2 (floor_log2 q + 1)"
proof -
  obtain a b where ab: "quotient_of q = (a, b)" by (cases "quotient_of q")
  then have b: "0 < b" and q: "q = of_int a / of_int b"
    by (simp_all add: quotient_of_denom_pos quotient_of_div)
  with assms have a: "0 < a" by (simp add: zero_less_divide_iff)
  define la where "la = bit_length (nat a)"
  define lb where "lb = bit_length (nat b)"
  define k where "k = int la - int lb"
  have fl: "floor_log2 q = (if pow2 k \<le> q then k else k - 1)"
    by (simp add: floor_log2_def ab la_def lb_def k_def Let_def)
  have ba: "2 ^ (la - 1) \<le> nat a \<and> nat a < 2 ^ la" and la: "0 < la"
    using a bit_length_bounds [of "nat a"] bit_length_pos [of "nat a"] unfolding la_def by auto
  have bb: "2 ^ (lb - 1) \<le> nat b \<and> nat b < 2 ^ lb" and lb: "0 < lb"
    using b bit_length_bounds [of "nat b"] bit_length_pos [of "nat b"] unfolding lb_def by auto
  have ra: "(of_int a :: rat) = of_nat (nat a)" using a by simp
  have rb: "(of_int b :: rat) = of_nat (nat b)" using b by simp
  have a1: "(2::rat) ^ (la - 1) \<le> of_int a" and a2: "of_int a < (2::rat) ^ la"
    using ba unfolding ra by (metis of_nat_le_iff of_nat_numeral of_nat_power, metis of_nat_less_iff of_nat_numeral of_nat_power)
  have b1: "(2::rat) ^ (lb - 1) \<le> of_int b" and b2: "of_int b < (2::rat) ^ lb"
    using bb unfolding rb by (metis of_nat_le_iff of_nat_numeral of_nat_power, metis of_nat_less_iff of_nat_numeral of_nat_power)
  have bpos: "(0::rat) < of_int b" using b by simp
  have p1: "pow2 (k - 1) = 2 ^ (la - 1) / 2 ^ lb"
  proof -
    have "k - 1 = int (la - 1) - int lb" using la by (simp add: k_def)
    then show ?thesis by (simp add: pow2_powi power_int_diff)
  qed
  have p2: "pow2 (k + 1) = 2 ^ la / 2 ^ (lb - 1)"
  proof -
    have "k + 1 = int la - int (lb - 1)" using lb by (simp add: k_def)
    then show ?thesis by (simp add: pow2_powi power_int_diff)
  qed
  have lo: "pow2 (k - 1) \<le> q"
  proof -
    have "2 ^ (la - 1) / 2 ^ lb \<le> of_int a / (2::rat) ^ lb"
      using a1 by (simp add: divide_right_mono)
    also have "\<dots> \<le> of_int a / of_int b"
      using b2 bpos a by (simp add: frac_le)
    finally show ?thesis by (simp add: p1 q)
  qed
  have hi: "q < pow2 (k + 1)"
  proof -
    have p: "(0::rat) < 2 ^ (lb - 1)" by simp
    have "of_int a / of_int b < (2::rat) ^ la / of_int b"
      using a2 bpos by (simp add: divide_strict_right_mono)
    also have "\<dots> \<le> 2 ^ la / 2 ^ (lb - 1)"
      using b1 p by (simp add: frac_le)
    finally show ?thesis by (simp add: p2 q)
  qed
  show "pow2 (floor_log2 q) \<le> q" using lo by (simp add: fl)
  show "q < pow2 (floor_log2 q + 1)" using hi by (simp add: fl) 
qed


lemma round_half_even_le: "x \<le> of_int N \<Longrightarrow> round_half_even x \<le> N"
proof -
  assume a: "x \<le> of_int N"
  then have f: "\<lfloor>x\<rfloor> \<le> N" by (simp add: floor_le_iff) 
  show ?thesis
  proof (cases "\<lfloor>x\<rfloor> = N")
    case True
    then have "of_int N \<le> x" by (metis of_int_floor_le)
    with a have "x = of_int N" by simp
    then show ?thesis by (simp add: round_half_even_def)
  next
    case False
    with f have "\<lfloor>x\<rfloor> + 1 \<le> N" by simp
    then show ?thesis by (simp add: round_half_even_def Let_def)
  qed
qed

lemma round_half_even_ge: "of_int N \<le> x \<Longrightarrow> N \<le> round_half_even x"
proof -
  assume "of_int N \<le> x"
  then have "N \<le> \<lfloor>x\<rfloor>" by (simp add: le_floor_iff)
  then show ?thesis by (simp add: round_half_even_def Let_def)
qed

lemma round_half_even_le_even:
  assumes "even N"
  shows "round_half_even x \<le> N \<longleftrightarrow> x \<le> of_int N + 1 / 2"
proof (cases "\<lfloor>x\<rfloor> = N")
  case True
  then show ?thesis using assms by (auto simp add: round_half_even_def Let_def)
next
  case False
  show ?thesis
  proof (cases "\<lfloor>x\<rfloor> < N")
    case True
    then have a: "\<lfloor>x\<rfloor> + 1 \<le> N" by simp
    then have l: "round_half_even x \<le> N" by (simp add: round_half_even_def Let_def)
    have "x < of_int (\<lfloor>x\<rfloor> + 1)" by linarith
    also have "\<dots> \<le> of_int N" using a by (simp only: of_int_le_iff)
    finally have "x \<le> of_int N + 1 / 2" by simp
    with l show ?thesis by simp
  next
    case False
    with \<open>\<lfloor>x\<rfloor> \<noteq> N\<close> have a: "N + 1 \<le> \<lfloor>x\<rfloor>" by simp
    then have "of_int (N + 1) \<le> x" by (simp only: le_floor_iff)
    then have r: "\<not> x \<le> of_int N + 1 / 2" by simp
    from a have "N + 1 \<le> round_half_even x" by (simp add: round_half_even_def Let_def)
    with r show ?thesis by simp
  qed
qed

lemma float_le_cases:
  "5 \<le> r \<Longrightarrow> r \<le> 8 \<Longrightarrow> float_le (if pow2 1024 \<le> v then Infinity
             else if v \<le> - pow2 1024 then MinusInfinity else Finite v) r \<longleftrightarrow> v \<le> r"
proof -
  assume r: "5 \<le> r" "r \<le> 8"
  have "pow2 4 \<le> pow2 1024" by (rule pow2_mono) simp
  then have big: "16 \<le> pow2 1024" by (simp add: pow2_def)
  show ?thesis using big r by auto
qed

lemma float_le_round_binary64:
  "float_le (round_binary64 q) 5 \<longleftrightarrow> q \<le> 5 + 1 / 2 ^ 51"
proof -
  define e where "e = max (floor_log2 \<bar>q\<bar> - 52) (- 1074)"
  define v where "v = of_int (round_half_even (q / pow2 e)) * pow2 e"
  have rb: "float_le (round_binary64 q) 5 \<longleftrightarrow> v \<le> 5" if "q \<noteq> 0"
  proof -
    have "round_binary64 q = (if pow2 1024 \<le> v then Infinity
             else if v \<le> - pow2 1024 then MinusInfinity else Finite v)"
      using that by (simp add: round_binary64_def Let_def e_def v_def)
    then show ?thesis using float_le_cases [of 5 v] by simp
  qed
  consider (zero) "q = 0" | (neg) "q < 0" | (small) "0 < q" "q \<le> 5" | (mid) "5 < q" "q < 8" | (big) "8 \<le> q"
    by linarith
  then show ?thesis
  proof cases
    case zero
    then show ?thesis by (simp add: round_binary64_def)
  next
    case neg
    then have "q / pow2 e \<le> of_int 0" by (simp add: divide_le_0_iff less_imp_le)
    then have "round_half_even (q / pow2 e) \<le> 0" by (rule round_half_even_le)
    then have "v \<le> 0" by (simp add: v_def mult_le_0_iff less_imp_le)
    with neg rb show ?thesis by simp
  next
    case small
    have b: "pow2 (floor_log2 q) \<le> q" using small by (simp add: floor_log2_bounds)
    with small have "pow2 (floor_log2 q) < pow2 3" by (simp add: pow2_def)
    then have "floor_log2 q < 3" by (simp add: pow2_less_iff)
    with small have e0: "e \<le> 0" by (simp add: e_def)
    then have pe: "pow2 e = 1 / 2 ^ nat (- e)" by (simp add: pow2_def)
    have "q / pow2 e \<le> 5 / pow2 e" using small by (simp add: divide_right_mono less_imp_le)
    also have "\<dots> = of_int (5 * 2 ^ nat (- e))" by (simp add: pe)
    finally have "round_half_even (q / pow2 e) \<le> 5 * 2 ^ nat (- e)" by (rule round_half_even_le)
    then have "of_int (round_half_even (q / pow2 e)) \<le> (of_int (5 * 2 ^ nat (- e)) :: rat)"
      by (simp only: of_int_le_iff)
    then have "v \<le> of_int (5 * 2 ^ nat (- e)) * pow2 e"
      unfolding v_def by (rule mult_right_mono) (simp add: less_imp_le)
    also have "\<dots> = 5" by (simp add: pe)
    finally show ?thesis using small rb by simp
  next
    case mid
    then have pos: "0 < q" by simp
    have b1: "pow2 (floor_log2 q) \<le> q" and b2: "q < pow2 (floor_log2 q + 1)"
      using pos by (simp_all add: floor_log2_bounds)
    from b1 mid have "pow2 (floor_log2 q) < pow2 3" by (simp add: pow2_def)
    then have u: "floor_log2 q < 3" by (simp add: pow2_less_iff)
    from b2 mid have "pow2 2 < pow2 (floor_log2 q + 1)" by (simp add: pow2_def)
    then have "2 < floor_log2 q + 1" by (simp add: pow2_less_iff)
    with u have "floor_log2 q = 2" by simp
    with pos have e: "e = - 50" by (simp add: e_def)
    have pe: "pow2 e = 1 / 2 ^ 50" by (simp add: e pow2_def)
    have "v \<le> 5 \<longleftrightarrow> round_half_even (q * 2 ^ 50) \<le> 5 * 2 ^ 50"
    proof -
      have "v \<le> 5 \<longleftrightarrow> of_int (round_half_even (q * 2 ^ 50)) \<le> (of_int (5 * 2 ^ 50) :: rat)"
        by (simp add: v_def pe field_simps)
      then show ?thesis by (simp only: of_int_le_iff)
    qed
    also have "\<dots> \<longleftrightarrow> q * 2 ^ 50 \<le> of_int (5 * 2 ^ 50) + 1 / 2"
      by (rule round_half_even_le_even) simp
    also have "\<dots> \<longleftrightarrow> q \<le> 5 + 1 / 2 ^ 51" by (simp add: field_simps)
    finally show ?thesis using pos rb by simp
  next
    case big
    then have pos: "0 < q" by simp
    have b1: "pow2 (floor_log2 q) \<le> q" and b2: "q < pow2 (floor_log2 q + 1)"
      using pos by (simp_all add: floor_log2_bounds)
    from b2 big have "pow2 3 < pow2 (floor_log2 q + 1)" by (simp add: pow2_def)
    then have l: "2 < floor_log2 q" by (simp add: pow2_less_iff)
    with pos have e: "e = floor_log2 q - 52" by (simp add: e_def)
    have split: "pow2 (floor_log2 q) = pow2 52 * pow2 e" by (simp add: e flip: pow2_add)
    with b1 have "pow2 52 * pow2 e \<le> q" by simp
    then have "pow2 52 \<le> q / pow2 e" by (simp add: pos_le_divide_eq)
    moreover have p52: "pow2 52 = of_int (2 ^ 52)" by (simp add: pow2_def)
    ultimately have "of_int (2 ^ 52) \<le> q / pow2 e" by simp
    then have "2 ^ 52 \<le> round_half_even (q / pow2 e)" by (rule round_half_even_ge)
    then have "(of_int (2 ^ 52) :: rat) \<le> of_int (round_half_even (q / pow2 e))"
      by (simp only: of_int_le_iff)
    then have "of_int (2 ^ 52) * pow2 e \<le> v"
      unfolding v_def by (rule mult_right_mono) (simp add: less_imp_le)
    moreover have "of_int (2 ^ 52) * pow2 e = pow2 (floor_log2 q)"
      by (simp only: split p52)
    moreover have "pow2 3 \<le> pow2 (floor_log2 q)" using l by (intro pow2_mono) simp
    moreover have "pow2 3 = 8" by (simp add: pow2_def)
    ultimately have "8 \<le> v" by simp
    with big pos rb show ?thesis by simp
  qed
qed

lemma floor_log2_eq:
  assumes "pow2 k \<le> q" and "q < pow2 (k + 1)"
  shows "floor_log2 q = k"
proof -
  have "0 < pow2 k" by simp
  then have pos: "0 < q" using assms(1) by (rule less_le_trans)
  note b = floor_log2_bounds [OF pos]
  from b(1) assms(2) have "pow2 (floor_log2 q) < pow2 (k + 1)" by simp
  then have u: "floor_log2 q < k + 1" by (simp add: pow2_less_iff)
  from b(2) assms(1) have "pow2 k < pow2 (floor_log2 q + 1)" by simp
  then have "k < floor_log2 q + 1" by (simp add: pow2_less_iff)
  with u show ?thesis by simp
qed

lemma round_half_even_of_int [simp]: "round_half_even (of_int n) = n"
  by (simp add: round_half_even_def)

lemma round_binary64_value:
  assumes "pow2 k \<le> q" and "q < pow2 (k + 1)" and "- 1022 \<le> k"
      and "round_half_even (q / pow2 (k - 52)) = m"
      and "of_int m * pow2 (k - 52) = v" and "v < pow2 1024"
  shows "round_binary64 q = Finite v"
proof -
  have "0 < pow2 k" by simp
  then have pos: "0 < q" using assms(1) by (rule less_le_trans)
  have fl: "floor_log2 \<bar>q\<bar> = k" using pos floor_log2_eq [OF assms(1,2)] by simp
  have e: "max (floor_log2 \<bar>q\<bar> - 52) (- 1074) = k - 52" using assms(3) by (simp add: fl)
  have "of_int 0 \<le> q / pow2 (k - 52)" using pos by (simp add: less_imp_le)
  then have "0 \<le> round_half_even (q / pow2 (k - 52))" by (rule round_half_even_ge)
  then have "0 \<le> m" by (simp only: assms(4))
  then have "0 \<le> v" unfolding assms(5) [symmetric] by (simp add: less_imp_le)
  with pow2_pos [of 1024] have gt: "\<not> v \<le> - pow2 1024" by linarith
  from assms(6) have lt: "\<not> pow2 1024 \<le> v" by simp
  from pos have nz: "q \<noteq> 0" by simp
  show ?thesis
    unfolding round_binary64_def Let_def e assms(4) assms(5) using nz lt gt by simp
qed

lemma round_binary64_exact:
  assumes "pow2 k \<le> q" and "q < pow2 (k + 1)" and "- 1022 \<le> k" and "k < 1024"
      and "q / pow2 (k - 52) = of_int m"
  shows "round_binary64 q = Finite q"
proof -
  have "pow2 (k - 52) \<noteq> 0" by (simp add: pow2_powi)
  then have "q / pow2 (k - 52) * pow2 (k - 52) = q" by simp
  then have v: "of_int m * pow2 (k - 52) = q" by (simp only: assms(5))
  have r: "round_half_even (q / pow2 (k - 52)) = m" by (simp only: assms(5) round_half_even_of_int)
  have "pow2 (k + 1) \<le> pow2 1024" using assms(4) by (intro pow2_mono) simp
  with assms(2) have lt: "q < pow2 1024" by simp
  from round_binary64_value [OF assms(1,2,3) r v lt] show ?thesis .
qed

lemma round_binary64_overflow:
  assumes "pow2 1024 \<le> q"
  shows "round_binary64 q = Infinity"
proof -
  have "0 < pow2 1024" by simp
  then have pos: "0 < q" using assms by (rule less_le_trans)
  note b = floor_log2_bounds [OF pos]
  from b(2) assms have "pow2 1024 < pow2 (floor_log2 q + 1)" by simp
  then have l: "1024 \<le> floor_log2 q" by (simp add: pow2_less_iff)
  define e where "e = floor_log2 q - 52"
  have e: "max (floor_log2 \<bar>q\<bar> - 52) (- 1074) = e" using pos l by (simp add: e_def)
  have split: "pow2 (floor_log2 q) = pow2 52 * pow2 e" by (simp add: e_def flip: pow2_add)
  with b(1) have "pow2 52 * pow2 e \<le> q" by simp
  then have "pow2 52 \<le> q / pow2 e" by (simp add: pos_le_divide_eq)
  moreover have p52: "pow2 52 = of_int (2 ^ 52)" by (simp add: pow2_def)
  ultimately have "of_int (2 ^ 52) \<le> q / pow2 e" by simp
  then have "2 ^ 52 \<le> round_half_even (q / pow2 e)" by (rule round_half_even_ge)
  then have "(of_int (2 ^ 52) :: rat) \<le> of_int (round_half_even (q / pow2 e))"
    by (simp only: of_int_le_iff)
  then have "of_int (2 ^ 52) * pow2 e \<le> of_int (round_half_even (q / pow2 e)) * pow2 e"
    by (rule mult_right_mono) (simp add: less_imp_le)
  then have "pow2 (floor_log2 q) \<le> of_int (round_half_even (q / pow2 e)) * pow2 e"
    by (simp only: split p52)
  moreover have "pow2 1024 \<le> pow2 (floor_log2 q)" using l by (intro pow2_mono)
  ultimately have "pow2 1024 \<le> of_int (round_half_even (q / pow2 e)) * pow2 e"
    by (rule order_trans [rotated])
  then show ?thesis
    unfolding round_binary64_def Let_def e using pos by simp
qed

lemma float_le_float_sub: "float_le (float_sub a b) 5 \<longleftrightarrow> a - b \<le> 5 + 1 / 2 ^ 51"
  by (simp add: float_sub_def float_le_round_binary64)

lemma prune_exact:
  "prune now cache sg =
     (case cache sg of
        None \<Rightarrow> None
      | Some ts \<Rightarrow> if now - ts \<le> 5 + 1 / 2 ^ 51 then Some ts else None)"
  by (simp add: prune_def recent_ttl_seconds_def float_le_float_sub split: option.splits)

section \<open>Properties of the debounce cache and the publisher\<close>

lemma demo_world_simps [simp]:
  "clock (demo_world io gap) i = of_nat i * gap"
  "disk (demo_world io gap) i = (if i = 0 then io else IoOk)"
  "float_repr (demo_world io gap) = demo_repr"
  by (simp_all add: demo_world_def)

lemma steady_world_simps [simp]:
  "clock (steady_world t) i = t"
  "disk (steady_world t) i = IoOk"
  "float_repr (steady_world t) = demo_repr"
  by (simp_all add: steady_world_def)

lemma boundary_world_simps [simp]:
  "clock boundary_world i =
     (if i = 0 then 3602879701896397 / 18014398509481984 else 5854679515581645 / 1125899906842624)"
  "disk boundary_world i = IoOk"
  "float_repr boundary_world = demo_repr"
  by (simp_all add: boundary_world_def)

lemma prune_empty [simp]: "prune t Map.empty = Map.empty"
  by (simp add: prune_def)

lemma init_bridge_simps [simp]:
  "recent_signals init_bridge = Map.empty"
  "prev_positions init_bridge = []"
  "published init_bridge = []"
  "signal_file init_bridge = None"
  by (simp_all add: init_bridge_def)

lemma write_signal_prev [simp]: "prev_positions (fst (write_signal w i p s)) = prev_positions s"
  by (simp add: write_signal_def Let_def split: io_outcome.splits)

lemma write_all_prev [simp]: "prev_positions (fst (write_all w i ps s)) = prev_positions s"
proof (induction ps arbitrary: i s)
  case Nil
  show ?case by simp
next
  case (Cons p ps)
  have h: "prev_positions (fst (write_signal w i p s)) = prev_positions s" by simp
  show ?case
  proof (cases "write_signal w i p s")
    case (Pair s' r)
    with h have hs: "prev_positions s' = prev_positions s" by simp
    show ?thesis
    proof (cases r)
      case None
      with Pair Cons.IH [of "Suc i" s'] hs show ?thesis by simp
    next
      case (Some e)
      with Pair hs show ?thesis by simp
    qed
  qed
qed

lemma write_signal_suppressed:
  "prune (clock w i) (recent_signals s) (signature_of (float_repr w) p) \<noteq> None \<Longrightarrow>
   write_signal w i p s = (s\<lparr>recent_signals := prune (clock w i) (recent_signals s)\<rparr>, None)"
  by (simp add: write_signal_def Let_def)

lemma write_signal_ok:
  "prune (clock w i) (recent_signals s) (signature_of (float_repr w) p) = None \<Longrightarrow>
   disk w i = IoOk \<Longrightarrow>
   write_signal w i p s =
     (s\<lparr>recent_signals := (prune (clock w i) (recent_signals s))
            (signature_of (float_repr w) p \<mapsto> clock w i),
        tmp_file := None,
        signal_file := Some (compact_json (float_repr w) p),
        published := published s @ [compact_json (float_repr w) p]\<rparr>, None)"
  by (simp add: write_signal_def Let_def)

lemma write_signal_error:
  assumes "write_signal w i p s = (s', Some e)"
  shows "recent_signals s' = prune (clock w i) (recent_signals s)"
    and "recent_signals s' (signature_of (float_repr w) p) = None"
    and "published s' = published s"
    and "signal_file s' = signal_file s"
    and "prev_positions s' = prev_positions s"
    and "disk w i \<noteq> IoOk"
  using assms
  by (auto simp add: write_signal_def Let_def split: if_splits io_outcome.splits)

lemma write_signal_raises:
  assumes "prune (clock w i) (recent_signals s) (signature_of (float_repr w) p) = None"
      and "disk w i \<noteq> IoOk"
  shows "snd (write_signal w i p s) = Some OSError"
    and "published (fst (write_signal w i p s)) = published s"
    and "signal_file (fst (write_signal w i p s)) = signal_file s"
  using assms by (cases "disk w i"; simp add: write_signal_def Let_def)+

lemma write_all_two:
  assumes "prune (clock w i) (recent_signals s) (signature_of (float_repr w) p) = None"
      and "disk w i = IoOk" and "disk w (Suc i) = IoOk"
  shows "published (fst (write_all w i [p, p] s)) =
           published s @ (if clock w (Suc i) - clock w i \<le> 5 + 1 / 2 ^ 51
                          then [compact_json (float_repr w) p]
                          else [compact_json (float_repr w) p, compact_json (float_repr w) p])"
    and "snd (write_all w i [p, p] s) = None"
  using assms
  by (simp_all add: write_signal_def Let_def prune_exact)

text \<open>
  Claim C9. The signature of an event enters the debounce cache only after the write of
  the temporary file and the replace of the signal file have both succeeded. When
  \<open>_write_signal\<close> raises, the cache is the pruned cache and has no entry for the
  signature, the signal file and the history are as before, and a later attempt to
  write the same event whose file operations succeed publishes it. Conversely an
  entry stamped by this call means that the file operations succeeded and that the
  signal file holds the event.
\<close>

theorem cache_insert_only_after_publish:
  "(snd (write_signal w i p s) \<noteq> None \<longrightarrow>
      disk w i \<noteq> IoOk \<and>
      recent_signals (fst (write_signal w i p s)) = prune (clock w i) (recent_signals s) \<and>
      recent_signals (fst (write_signal w i p s)) (signature_of (float_repr w) p) = None \<and>
      signal_file (fst (write_signal w i p s)) = signal_file s \<and>
      published (fst (write_signal w i p s)) = published s \<and>
      (\<forall>j. disk w j = IoOk \<longrightarrow>
         write_signal w j p (fst (write_signal w i p s)) =
           ((fst (write_signal w i p s))
              \<lparr>recent_signals :=
                 (prune (clock w j) (prune (clock w i) (recent_signals s)))
                   (signature_of (float_repr w) p \<mapsto> clock w j),
               tmp_file := None,
               signal_file := Some (compact_json (float_repr w) p),
               published := published s @ [compact_json (float_repr w) p]\<rparr>, None))) \<and>
   (recent_signals (fst (write_signal w i p s)) (signature_of (float_repr w) p) = Some (clock w i) \<and>
    prune (clock w i) (recent_signals s) (signature_of (float_repr w) p) = None \<longrightarrow>
      disk w i = IoOk \<and> signal_file (fst (write_signal w i p s)) = Some (compact_json (float_repr w) p))"
proof (intro conjI impI allI)
  obtain s' r where wr: "write_signal w i p s = (s', r)" by (cases "write_signal w i p s")
  {
    assume "snd (write_signal w i p s) \<noteq> None"
    with wr obtain e where e: "write_signal w i p s = (s', Some e)" by auto
    note f = write_signal_error [OF e]
    show "disk w i \<noteq> IoOk" using f by simp
    show "recent_signals (fst (write_signal w i p s)) = prune (clock w i) (recent_signals s)"
      using f wr by simp
    show none: "recent_signals (fst (write_signal w i p s)) (signature_of (float_repr w) p) = None"
      using f wr by simp
    show "signal_file (fst (write_signal w i p s)) = signal_file s" using f wr by simp
    show "published (fst (write_signal w i p s)) = published s" using f wr by simp
    fix j assume ok: "disk w j = IoOk"
    have pn: "prune (clock w j) (recent_signals s') (signature_of (float_repr w) p) = None"
      using f(2) by (simp add: prune_def)
    show "write_signal w j p (fst (write_signal w i p s)) =
           ((fst (write_signal w i p s))
              \<lparr>recent_signals :=
                 (prune (clock w j) (prune (clock w i) (recent_signals s)))
                   (signature_of (float_repr w) p \<mapsto> clock w j),
               tmp_file := None,
               signal_file := Some (compact_json (float_repr w) p),
               published := published s @ [compact_json (float_repr w) p]\<rparr>, None)"
      using write_signal_ok [OF pn ok] f(1) f(3) wr by simp
  }
  {
    assume a: "recent_signals (fst (write_signal w i p s)) (signature_of (float_repr w) p) = Some (clock w i) \<and>
      prune (clock w i) (recent_signals s) (signature_of (float_repr w) p) = None"
    then show "disk w i = IoOk"
      by (cases "disk w i") (auto simp add: write_signal_def Let_def)
    with a show "signal_file (fst (write_signal w i p s)) = Some (compact_json (float_repr w) p)"
      by (simp add: write_signal_ok)
  }
qed

theorem cache_insert_only_after_publish_witness:
  "snd (write_signal (demo_world ReplaceRaises 1) 0 (close_payload ''EURUSD'') init_bridge) \<noteq> None \<and>
   recent_signals (fst (write_signal (demo_world ReplaceRaises 1) 0 (close_payload ''EURUSD'') init_bridge))
     (signature_of (float_repr (demo_world ReplaceRaises 1)) (close_payload ''EURUSD'')) = None \<and>
   published (fst (write_signal (demo_world ReplaceRaises 1) 1 (close_payload ''EURUSD'')
     (fst (write_signal (demo_world ReplaceRaises 1) 0 (close_payload ''EURUSD'') init_bridge)))) =
     [compact_json (float_repr (demo_world ReplaceRaises 1)) (close_payload ''EURUSD'')] \<and>
   recent_signals (fst (write_signal (demo_world IoOk 1) 0 (close_payload ''EURUSD'') init_bridge))
     (signature_of (float_repr (demo_world IoOk 1)) (close_payload ''EURUSD'')) =
     Some (clock (demo_world IoOk 1) 0) \<and>
   signal_file (fst (write_signal (demo_world IoOk 1) 0 (close_payload ''EURUSD'') init_bridge)) =
     Some (compact_json (float_repr (demo_world IoOk 1)) (close_payload ''EURUSD''))"
proof -
  have a: "snd (write_signal (demo_world ReplaceRaises 1) 0 (close_payload ''EURUSD'') init_bridge) \<noteq> None"
    by (simp add: write_signal_def Let_def)
  have b: "recent_signals (fst (write_signal (demo_world IoOk 1) 0 (close_payload ''EURUSD'') init_bridge))
     (signature_of (float_repr (demo_world IoOk 1)) (close_payload ''EURUSD'')) =
     Some (clock (demo_world IoOk 1) 0) \<and>
     prune (clock (demo_world IoOk 1) 0) (recent_signals init_bridge)
       (signature_of (float_repr (demo_world IoOk 1)) (close_payload ''EURUSD'')) = None"
    by (simp add: write_signal_def Let_def)
  have c: "disk (demo_world ReplaceRaises 1) 1 = IoOk" by simp
  from a b c
    cache_insert_only_after_publish [of "demo_world ReplaceRaises 1" 0 "close_payload ''EURUSD''" init_bridge]
    cache_insert_only_after_publish [of "demo_world IoOk 1" 0 "close_payload ''EURUSD''" init_bridge]
  show ?thesis by simp
qed

lemma compact_close_eurusd:
  \<open>compact_json fr (close_payload ''EURUSD'') = ''{"action":"CLOSE","symbol":"EURUSD"}''\<close>
  by (simp add: compact_json_def json_dumps_def close_payload_def encode_str_def escape_char_def ord_def)

lemma signature_close_eurusd:
  \<open>signature_of fr (close_payload ''EURUSD'') = ''{"action": "CLOSE", "symbol": "EURUSD"}''\<close>
  by (simp add: signature_of_def json_dumps_def close_payload_def encode_str_def escape_char_def
        ord_def less_eq_char_def less_char_def)




lemma write_all_append:
  "write_all w i (xs @ ys) s =
     (case write_all w i xs s of
        (s1, None) \<Rightarrow> write_all w (i + length xs) ys s1
      | (s1, Some e) \<Rightarrow> (s1, Some e))"
proof (induction xs arbitrary: i s)
  case Nil
  show ?case by simp
next
  case (Cons x xs)
  show ?case
  proof (cases "write_signal w i x s")
    case (Pair s' r)
    then show ?thesis using Cons.IH [of "Suc i" s']
      by (cases r) (simp_all split: prod.splits option.splits)
  qed
qed

lemma write_all_suppressed_block:
  assumes "recent_signals s (signature_of (float_repr w) p) = Some t"
      and "\<forall>j<m. clock w (i + j) - t \<le> 5"
  shows "snd (write_all w i (replicate m p) s) = None \<and>
         published (fst (write_all w i (replicate m p) s)) = published s \<and>
         signal_file (fst (write_all w i (replicate m p) s)) = signal_file s \<and>
         recent_signals (fst (write_all w i (replicate m p) s)) (signature_of (float_repr w) p) = Some t"
  using assms
proof (induction m arbitrary: i s)
  case 0
  then show ?case by simp
next
  case (Suc m)
  let ?s1 = "s\<lparr>recent_signals := prune (clock w i) (recent_signals s)\<rparr>"
  from Suc.prems(2) have t0: "clock w i - t \<le> 5" by (metis add.right_neutral zero_less_Suc)
  then have "clock w i - t \<le> 5 + 1 / 2 ^ 51" by simp
  with Suc.prems(1) have pr: "prune (clock w i) (recent_signals s) (signature_of (float_repr w) p) = Some t"
    by (simp add: prune_exact)
  then have ws: "write_signal w i p s = (?s1, None)"
    by (simp add: write_signal_suppressed)
  have r1: "recent_signals ?s1 (signature_of (float_repr w) p) = Some t" using pr by simp
  have tm: "\<forall>j<m. clock w (Suc i + j) - t \<le> 5"
  proof (intro allI impI)
    fix j assume "j < m"
    then have "Suc j < Suc m" by simp
    with Suc.prems(2) have "clock w (i + Suc j) - t \<le> 5" by blast
    then show "clock w (Suc i + j) - t \<le> 5" by simp
  qed
  from Suc.IH [OF r1 tm] ws show ?case by simp
qed

lemma write_all_raises_first:
  assumes "prune (clock w i) (recent_signals s) (signature_of (float_repr w) p) = None"
      and "disk w i \<noteq> IoOk"
  shows "snd (write_all w i (p # ps) s) = Some OSError"
    and "published (fst (write_all w i (p # ps) s)) = published s"
proof -
  obtain s' r where wr: "write_signal w i p s = (s', r)" by (cases "write_signal w i p s")
  from write_signal_raises [OF assms] wr have "r = Some OSError" and "published s' = published s"
    by simp_all
  with wr show "snd (write_all w i (p # ps) s) = Some OSError"
    and "published (fst (write_all w i (p # ps) s)) = published s" by simp_all
qed

lemma map_of_dropWhile:
  "map_of xs k = Some v \<Longrightarrow>
   dropWhile (\<lambda>(k', c). k' \<noteq> k) xs = (k, v) # tl (dropWhile (\<lambda>(k', c). k' \<noteq> k) xs)"
  by (induction xs) (auto split: if_splits)

lemma map_of_split_takeWhile:
  assumes "map_of xs k = Some v"
  shows "\<exists>rest. xs = takeWhile (\<lambda>(k', c). k' \<noteq> k) xs @ (k, v) # rest"
proof -
  have "takeWhile (\<lambda>(k', c). k' \<noteq> k) xs @ dropWhile (\<lambda>(k', c). k' \<noteq> k) xs = xs"
    by (rule takeWhile_dropWhile_id)
  then have "takeWhile (\<lambda>(k', c). k' \<noteq> k) xs @
          (k, v) # tl (dropWhile (\<lambda>(k', c). k' \<noteq> k) xs) = xs"
    by (simp only: map_of_dropWhile [OF assms, symmetric])
  then show ?thesis by (intro exI) (rule sym)
qed

lemma open_events_block:
  assumes "wf_counter prev" and "wf_counter cur"
      and "cget cur k - cget prev k = int n" and "0 < n"
  shows "\<exists>post. delta_events prev cur =
           opens_before k prev cur @ replicate n (open_payload k) @ post"
proof -
  from assms(1,2) have d: "distinct (map fst cur)" "distinct (map fst prev)"
    by (simp_all add: wf_counter_def)
  have "cget (counter_sub cur prev) k = int n"
    using cget_counter_sub [OF d, of k] assms(3) by simp
  with assms(4) have "map_of (counter_sub cur prev) k = Some (int n)"
    by (auto simp add: cget_def split: option.splits)
  from map_of_split_takeWhile [OF this] obtain rest where
    sp: "counter_sub cur prev =
          takeWhile (\<lambda>(k', c). k' \<noteq> k) (counter_sub cur prev) @ (k, int n) # rest" by blast
  let ?f = "\<lambda>(k', count). replicate (nat count) (open_payload k')"
  have "open_events prev cur =
      concat (map ?f (takeWhile (\<lambda>(k', c). k' \<noteq> k) (counter_sub cur prev) @ (k, int n) # rest))"
    unfolding open_events_def using sp by simp
  then have "open_events prev cur =
      opens_before k prev cur @ replicate n (open_payload k) @ concat (map ?f rest)"
    by (simp add: opens_before_def)
  then show ?thesis by (simp add: delta_events_def)
qed

lemma sorted_open_keys:
  "sort_key fst (open_payload k) =
     (case k of (smb, sd, l) \<Rightarrow>
        [(''action'', JStr ''OPEN''), (''lot'', JNum l), (''side'', JStr sd), (''symbol'', JStr smb)])"
  by (cases k) (simp add: open_payload_def less_eq_char_def less_char_def)

lemma signature_open_eurusd:
  \<open>signature_of demo_repr (open_payload eurusd_buy) =
     ''{"action": "OPEN", "lot": 1.0, "side": "BUY", "symbol": "EURUSD"}''\<close>
  by (simp add: signature_of_def json_dumps_def sorted_open_keys eurusd_buy_def demo_repr_def)
     (simp add: encode_str_def escape_char_def ord_def)

lemma signature_open_gbpusd:
  \<open>signature_of demo_repr (open_payload gbpusd_sell) =
     ''{"action": "OPEN", "lot": 2.0, "side": "SELL", "symbol": "GBPUSD"}''\<close>
  by (simp add: signature_of_def json_dumps_def sorted_open_keys gbpusd_sell_def demo_repr_def)
     (simp add: encode_str_def escape_char_def ord_def)

lemma compact_open_eurusd:
  \<open>compact_json demo_repr (open_payload eurusd_buy) =
     ''{"action":"OPEN","symbol":"EURUSD","side":"BUY","lot":1.0}''\<close>
  by (simp add: compact_json_def json_dumps_def open_payload_def eurusd_buy_def demo_repr_def)
     (simp add: encode_str_def escape_char_def ord_def)

lemma compact_open_gbpusd:
  \<open>compact_json demo_repr (open_payload gbpusd_sell) =
     ''{"action":"OPEN","symbol":"GBPUSD","side":"SELL","lot":2.0}''\<close>
  by (simp add: compact_json_def json_dumps_def open_payload_def gbpusd_sell_def demo_repr_def)
     (simp add: encode_str_def escape_char_def ord_def)

lemma Counter_example_C:
  "Counter [gbpusd_sell, eurusd_buy, eurusd_buy, eurusd_buy] = [(gbpusd_sell, 1), (eurusd_buy, 3)]"
  by (simp add: Counter_def eurusd_buy_def gbpusd_sell_def)

subsection \<open>The counts of a captured Snapshot\<close>

lemma unique_records_distinct:
  "distinct (unique_records seen rs) \<and> set (unique_records seen rs) \<inter> set seen = {}"
proof (induction rs arbitrary: seen)
  case Nil
  show ?case by simp
next
  case (Cons r rs)
  from Cons.IH [of seen] Cons.IH [of "r # seen"] show ?case by auto
qed

lemma inj_key_of: "inj key_of"
  by (rule injI) (simp add: key_of_def)

lemma bump_new: "k \<notin> fst ` set c \<Longrightarrow> bump c k = c @ [(k, 1)]"
  by (induction c) auto

lemma foldl_bump_distinct:
  "distinct ks \<Longrightarrow> set ks \<inter> fst ` set c = {} \<Longrightarrow>
   foldl bump c ks = c @ map (\<lambda>k. (k, 1)) ks"
proof (induction ks arbitrary: c)
  case Nil
  show ?case by simp
next
  case (Cons k ks)
  from Cons.prems have n: "k \<notin> fst ` set c" by auto
  from Cons.prems have "distinct ks" and "set ks \<inter> fst ` set (c @ [(k, 1)]) = {}" by auto
  from Cons.IH [OF this] show ?case by (simp add: bump_new [OF n])
qed

lemma Counter_distinct: "distinct ks \<Longrightarrow> Counter ks = map (\<lambda>k. (k, 1)) ks"
  using foldl_bump_distinct [of ks "[]"] by (simp add: Counter_def)

lemma cget_ones: "cget (map (\<lambda>k. (k, 1)) ks) k = (if k \<in> set ks then 1 else 0)"
  by (induction ks) (auto simp add: cget_def)

lemma captured_counts:
  assumes "read_live_positions cap = Inr c"
  shows "\<exists>ks. distinct ks \<and> c = map (\<lambda>k. (k, 1)) ks"
proof -
  from assms obtain texts where c: "c = Counter (map key_of (extract_positions_from_texts texts))"
    by (auto simp add: read_live_positions_def Let_def split: sum.splits if_splits)
  have "distinct (extract_positions_from_texts texts)"
    using unique_records_distinct [of "[]"] by (simp add: extract_positions_from_texts_def)
  then have d: "distinct (map key_of (extract_positions_from_texts texts))"
    by (simp add: distinct_map inj_on_def key_of_def)
  from Counter_distinct [OF d] c d show ?thesis by blast
qed




section \<open>Properties of the driver loop\<close>

lemma emit_deltas_error:
  "snd (emit_deltas w cur s) \<noteq> None \<Longrightarrow>
   snd (write_all w 0 (delta_events (prev_positions s) cur) s) \<noteq> None \<and>
   emit_deltas w cur s = write_all w 0 (delta_events (prev_positions s) cur) s"
  by (cases "write_all w 0 (delta_events (prev_positions s) cur) s")
     (auto simp add: emit_deltas_def split: option.splits)

lemma emit_deltas_ok:
  "snd (emit_deltas w cur s) = None \<Longrightarrow>
   snd (write_all w 0 (delta_events (prev_positions s) cur) s) = None \<and>
   emit_deltas w cur s =
     ((fst (write_all w 0 (delta_events (prev_positions s) cur) s))\<lparr>prev_positions := cur\<rparr>, None)"
  by (cases "write_all w 0 (delta_events (prev_positions s) cur) s")
     (auto simp add: emit_deltas_def split: option.splits)

lemma failing_world_simps [simp]:
  "clock (failing_world k) i = 0"
  "disk (failing_world k) i = (if i = k then ReplaceRaises else IoOk)"
  "float_repr (failing_world k) = demo_repr"
  by (simp_all add: failing_world_def)


lemma empty_capture:
  "read_live_positions \<lparr>ui_nodes = Inr [], ocr_lines = Inr []\<rparr> = Inr []"
  by (simp add: read_live_positions_def chunks_of_def extract_positions_from_texts_def
        line_records_def window_records_def tokens_of_def strip_nonempty_def strip_def
        List.map_filter_def Counter_def)

lemma close_events_example:
  "delta_events [(eurusd_buy, 1), (gbpusd_sell, 1)] [] =
     [close_payload ''EURUSD'', close_payload ''GBPUSD'']"
  by (simp add: delta_events_def open_events_def close_events_def counter_sub_def cget_def
        eurusd_buy_def gbpusd_sell_def)

lemma close_payload_sig_neq:
  "signature_of fr (close_payload ''EURUSD'') \<noteq> signature_of fr (close_payload ''GBPUSD'')"
  by (simp add: signature_of_def json_dumps_def close_payload_def encode_str_def
        escape_char_def ord_def)

text \<open>
  Claim C3. The previous Snapshot is replaced by the current one only when every event
  of the cycle has been processed. While the events are written it is not touched,
  and when any step raises, the capture or a publish in the middle of the events,
  the cycle ends with the previous Snapshot as it was, so the next cycle computes
  its events against the same Snapshot. A cycle without an error ends with the
  captured Snapshot as the previous one.
\<close>

theorem previous_snapshot_replaced_last:
  "(snd (run_cycle w cap s) \<noteq> None \<longrightarrow>
      prev_positions (fst (run_cycle w cap s)) = prev_positions s \<and>
      (\<forall>cur. delta_events (prev_positions (fst (run_cycle w cap s))) cur =
             delta_events (prev_positions s) cur)) \<and>
   (snd (run_cycle w cap s) = None \<longrightarrow>
      read_live_positions cap = Inr (prev_positions (fst (run_cycle w cap s)))) \<and>
   (\<forall>e. read_live_positions cap = Inl e \<longrightarrow> run_cycle w cap s = (s, Some e)) \<and>
   (\<forall>cur. read_live_positions cap = Inr cur \<longrightarrow>
      (snd (run_cycle w cap s) = None) =
        (snd (write_all w 0 (delta_events (prev_positions s) cur) s) = None)) \<and>
   (\<forall>j ps. prev_positions (fst (write_all w j ps s)) = prev_positions s)"
proof (intro conjI allI impI)
  assume err: "snd (run_cycle w cap s) \<noteq> None"
  show keep: "prev_positions (fst (run_cycle w cap s)) = prev_positions s"
  proof (cases "read_live_positions cap")
    case (Inl e)
    then show ?thesis by (simp add: run_cycle_def)
  next
    case (Inr cur)
    with err have "snd (emit_deltas w cur s) \<noteq> None" by (simp add: run_cycle_def)
    from emit_deltas_error [OF this] Inr show ?thesis by (simp add: run_cycle_def)
  qed
  fix cur
  from keep show "delta_events (prev_positions (fst (run_cycle w cap s))) cur =
             delta_events (prev_positions s) cur" by simp
next
  assume ok: "snd (run_cycle w cap s) = None"
  show "read_live_positions cap = Inr (prev_positions (fst (run_cycle w cap s)))"
  proof (cases "read_live_positions cap")
    case (Inl e)
    with ok show ?thesis by (simp add: run_cycle_def)
  next
    case (Inr cur)
    with ok have "snd (emit_deltas w cur s) = None" by (simp add: run_cycle_def)
    from emit_deltas_ok [OF this] Inr show ?thesis by (simp add: run_cycle_def)
  qed
next
  fix e assume "read_live_positions cap = Inl e"
  then show "run_cycle w cap s = (s, Some e)" by (simp add: run_cycle_def)
next
  fix cur assume "read_live_positions cap = Inr cur"
  then show "(snd (run_cycle w cap s) = None) =
        (snd (write_all w 0 (delta_events (prev_positions s) cur) s) = None)"
    by (cases "write_all w 0 (delta_events (prev_positions s) cur) s")
       (auto simp add: run_cycle_def emit_deltas_def split: option.splits)
next
  fix j ps show "prev_positions (fst (write_all w j ps s)) = prev_positions s" by simp
qed

theorem previous_snapshot_replaced_last_witness:
  "snd (run_cycle (failing_world 1) \<lparr>ui_nodes = Inr [], ocr_lines = Inr []\<rparr>
        (init_bridge\<lparr>prev_positions := [(eurusd_buy, 1), (gbpusd_sell, 1)]\<rparr>)) = Some OSError \<and>
   prev_positions (fst (run_cycle (failing_world 1) \<lparr>ui_nodes = Inr [], ocr_lines = Inr []\<rparr>
        (init_bridge\<lparr>prev_positions := [(eurusd_buy, 1), (gbpusd_sell, 1)]\<rparr>))) =
     [(eurusd_buy, 1), (gbpusd_sell, 1)] \<and>
   published (fst (run_cycle (failing_world 1) \<lparr>ui_nodes = Inr [], ocr_lines = Inr []\<rparr>
        (init_bridge\<lparr>prev_positions := [(eurusd_buy, 1), (gbpusd_sell, 1)]\<rparr>))) =
     [compact_json demo_repr (close_payload ''EURUSD'')] \<and>
   snd (run_cycle (failing_world 2) \<lparr>ui_nodes = Inr [], ocr_lines = Inr []\<rparr>
        (init_bridge\<lparr>prev_positions := [(eurusd_buy, 1), (gbpusd_sell, 1)]\<rparr>)) = None \<and>
   prev_positions (fst (run_cycle (failing_world 2) \<lparr>ui_nodes = Inr [], ocr_lines = Inr []\<rparr>
        (init_bridge\<lparr>prev_positions := [(eurusd_buy, 1), (gbpusd_sell, 1)]\<rparr>))) = []"
proof -
  let ?cap = "\<lparr>ui_nodes = Inr [], ocr_lines = Inr []\<rparr>"
  let ?s = "init_bridge\<lparr>prev_positions := [(eurusd_buy, 1), (gbpusd_sell, 1)]\<rparr>"
  have run1: "run_cycle (failing_world 1) ?cap ?s =
      (?s\<lparr>recent_signals := [signature_of demo_repr (close_payload ''EURUSD'') \<mapsto> 0],
          tmp_file := Some (compact_json demo_repr (close_payload ''GBPUSD'')),
          signal_file := Some (compact_json demo_repr (close_payload ''EURUSD'')),
          published := [compact_json demo_repr (close_payload ''EURUSD'')]\<rparr>, Some OSError)"
    by (simp add: run_cycle_def empty_capture emit_deltas_def close_events_example
          write_signal_def Let_def prune_exact close_payload_sig_neq
          close_payload_sig_neq [symmetric] fun_eq_iff)
  have run2: "snd (run_cycle (failing_world 2) ?cap ?s) = None"
    by (simp add: run_cycle_def empty_capture emit_deltas_def close_events_example
          write_signal_def Let_def prune_exact close_payload_sig_neq
          close_payload_sig_neq [symmetric])
  have e1: "snd (run_cycle (failing_world 1) ?cap ?s) \<noteq> None" by (simp only: run1) simp
  have a: "snd (run_cycle (failing_world 1) ?cap ?s) = Some OSError" by (simp only: run1) simp
  have c: "published (fst (run_cycle (failing_world 1) ?cap ?s)) =
     [compact_json demo_repr (close_payload ''EURUSD'')]" by (simp only: run1) simp
  from previous_snapshot_replaced_last [of "failing_world 1" ?cap ?s] e1
  have "prev_positions (fst (run_cycle (failing_world 1) ?cap ?s)) = prev_positions ?s"
    by blast
  then have b: "prev_positions (fst (run_cycle (failing_world 1) ?cap ?s)) =
      [(eurusd_buy, 1), (gbpusd_sell, 1)]" by simp
  from previous_snapshot_replaced_last [of "failing_world 2" ?cap ?s] run2
  have "read_live_positions ?cap =
      Inr (prev_positions (fst (run_cycle (failing_world 2) ?cap ?s)))"
    by blast
  then have d: "prev_positions (fst (run_cycle (failing_world 2) ?cap ?s)) = []"
    by (simp add: empty_capture)
  from a b c run2 d show ?thesis by blast
qed

section \<open>Properties of the character classes and of the matcher\<close>

section \<open>Characters\<close>

lemma ord_char_of: "n < 256 \<Longrightarrow> ord (char_of n) = n"
  by (simp add: ord_def)

lemma ord_inj: "ord c = ord d \<Longrightarrow> c = d"
  by (simp add: ord_def)

lemma ord_lower_char: "ord (lower_char c) = (if is_upper c then ord c + 32 else ord c)"
  by (simp add: lower_char_def is_upper_def ord_char_of)

lemma ord_less_256: "ord c < 256"
  by (simp add: ord_def)

lemma ord_upper_char: "ord (upper_char c) = (if is_lower c then ord c - 32 else ord c)"
proof -
  have "ord c - 32 < 256" using ord_less_256 [of c] by simp
  then show ?thesis by (simp add: upper_char_def ord_char_of)
qed

lemma cls_ok_digit [simp]: "cls_ok ic is_digit c = is_digit c"
  by (auto simp add: cls_ok_def is_digit_def ord_lower_char ord_upper_char is_upper_def
        is_lower_def split: if_splits)

lemma cls_ok_space [simp]: "cls_ok ic is_space c = is_space c"
  by (auto simp add: cls_ok_def is_space_def ord_lower_char ord_upper_char is_upper_def
        is_lower_def split: if_splits)

lemma ord_colon: "ord CHR '':'' = 58" "ord CHR ''='' = 61" "ord CHR ''.'' = 46"
  by (simp_all add: ord_def)

lemma cls_ok_colon [simp]: "cls_ok ic is_colon_eq c = is_colon_eq c"
proof -
  have e: "\<And>x y. (x = y) = (ord x = ord y)" using ord_inj by blast
  show ?thesis
    by (auto simp add: cls_ok_def is_colon_eq_def e [of _ "CHR '':''"] e [of _ "CHR ''=''"]
          ord_colon ord_lower_char ord_upper_char is_upper_def is_lower_def split: if_splits)
qed

lemma chr_eq_dot [simp]: "chr_eq ic CHR ''.'' c = (c = CHR ''.'')"
proof -
  have e: "\<And>x y. (x = y) = (ord x = ord y)" using ord_inj by blast
  show ?thesis
    by (auto simp add: chr_eq_def e [of "lower_char _"] e [of _ "CHR ''.''"] e [of "CHR ''.''"]
          ord_colon ord_lower_char is_upper_def split: if_splits)
qed

lemma chr_eq_upper: "chr_eq ic p c \<Longrightarrow> upper_char c = upper_char p"
proof -
  have e: "\<And>x y. (x = y) = (ord x = ord y)" using ord_inj by blast
  show "chr_eq ic p c \<Longrightarrow> upper_char c = upper_char p"
    by (auto simp add: chr_eq_def e [of "lower_char _"] e [of "upper_char _"]
          ord_lower_char ord_upper_char is_upper_def is_lower_def split: if_splits)
qed

lemma chr_eq_letter_not_digit:
  "is_lower p \<or> is_upper p \<Longrightarrow> chr_eq ic p c \<Longrightarrow> \<not> is_digit c"
proof -
  have e: "\<And>x y. (x = y) = (ord x = ord y)" using ord_inj by blast
  show "is_lower p \<or> is_upper p \<Longrightarrow> chr_eq ic p c \<Longrightarrow> \<not> is_digit c"
    by (auto simp add: chr_eq_def e [of "lower_char _"] e [of p]
          ord_lower_char is_upper_def is_lower_def is_digit_def split: if_splits)
qed

lemma upper_char_upper [simp]: "is_upper c \<Longrightarrow> upper_char c = c"
  by (simp add: upper_char_def is_upper_def is_lower_def)


lemma cls_ok_fun [simp]:
  "cls_ok ic is_digit = is_digit" "cls_ok ic is_space = is_space"
  "cls_ok ic is_colon_eq = is_colon_eq"
  by (rule ext, simp)+

section \<open>The matcher\<close>

lemma advance_0 [simp]: "advance 0 cur = cur"
  by (simp add: advance_def)

lemma snd_advance [simp]: "snd (advance j cur) = drop j (snd cur)"
  by (simp add: advance_def)

lemma advance_advance: "advance j2 (advance j1 cur) = advance (j1 + j2) cur"
  by (simp add: advance_def take_add add.commute)

lemma take_le_takeWhile:
  "j \<le> length (takeWhile P s) \<Longrightarrow> x \<in> set (take j s) \<Longrightarrow> P x"
proof -
  assume j: "j \<le> length (takeWhile P s)" and x: "x \<in> set (take j s)"
  have "take j s = take j (takeWhile P s @ dropWhile P s)" by simp
  also have "\<dots> = take j (takeWhile P s)" using j by (simp only: take_append) simp
  finally have "x \<in> set (takeWhile P s)" using x by (auto dest: in_set_takeD)
  then show "P x" by (rule set_takeWhileD [THEN conjunct2])
qed

lemma rmatch_consumes:
  "consumes ic Q r \<Longrightarrow> c' \<in> set (rmatch ic r cur) \<Longrightarrow>
   \<exists>j \<le> length (snd cur). c' = advance j cur \<and> (\<forall>x \<in> set (take j (snd cur)). Q x)"
proof (induction r arbitrary: cur c')
  case Eps
  then show ?case by (intro exI [of _ 0]) simp
next
  case (Chr p)
  show ?case
  proof (cases "snd cur")
    case Nil
    with Chr.prems show ?thesis by simp
  next
    case (Cons c cs)
    with Chr.prems have "chr_eq ic p c" and "c' = advance 1 cur" by (simp_all split: if_splits)
    with Chr.prems(1) Cons show ?thesis by (intro exI [of _ 1]) simp
  qed
next
  case (Cls P)
  show ?case
  proof (cases "snd cur")
    case Nil
    with Cls.prems show ?thesis by simp
  next
    case (Cons c cs)
    with Cls.prems have "cls_ok ic P c" and "c' = advance 1 cur" by (simp_all split: if_splits)
    with Cls.prems(1) Cons show ?thesis by (intro exI [of _ 1]) simp
  qed
next
  case WordB
  then show ?case by (intro exI [of _ 0]) (simp split: if_splits)
next
  case (Seq a b)
  from Seq.prems obtain c1 where c1: "c1 \<in> set (rmatch ic a cur)" and c2: "c' \<in> set (rmatch ic b c1)"
    by auto
  from Seq.prems(1) have qa: "consumes ic Q a" and qb: "consumes ic Q b" by simp_all
  from Seq.IH(1) [OF qa c1] obtain j1 where
    j1: "j1 \<le> length (snd cur)" "c1 = advance j1 cur" "\<forall>x \<in> set (take j1 (snd cur)). Q x"
    by blast
  from Seq.IH(2) [OF qb c2] obtain j2 where
    j2: "j2 \<le> length (snd c1)" "c' = advance j2 c1" "\<forall>x \<in> set (take j2 (snd c1)). Q x"
    by blast
  have le: "j1 + j2 \<le> length (snd cur)" using j1(1,2) j2(1) by simp
  have eq: "c' = advance (j1 + j2) cur" using j1(2) j2(2) by (simp add: advance_advance)
  have "take (j1 + j2) (snd cur) = take j1 (snd cur) @ take j2 (drop j1 (snd cur))"
    by (rule take_add)
  then have "\<forall>x \<in> set (take (j1 + j2) (snd cur)). Q x"
    using j1(2,3) j2(3) by auto
  with le eq show ?case by blast
next
  case (Alt a b)
  from Alt.prems(2) have "c' \<in> set (rmatch ic a cur) \<or> c' \<in> set (rmatch ic b cur)" by auto
  then show ?case
  proof
    assume "c' \<in> set (rmatch ic a cur)"
    with Alt.IH(1) Alt.prems(1) show ?thesis by simp
  next
    assume "c' \<in> set (rmatch ic b cur)"
    with Alt.IH(2) Alt.prems(1) show ?thesis by simp
  qed
next
  case (Opt a)
  from Opt.prems(2) have "c' \<in> set (rmatch ic a cur) \<or> c' = cur" by auto
  then show ?case
  proof
    assume "c' \<in> set (rmatch ic a cur)"
    with Opt.IH Opt.prems(1) show ?thesis by simp
  next
    assume "c' = cur"
    then show ?thesis by (intro exI [of _ 0]) simp
  qed
next
  case (Rep lo hi P)
  let ?run = "length (takeWhile (cls_ok ic P) (snd cur))"
  from Rep.prems(2) obtain j where j: "c' = advance j cur" "j \<le> ?run"
    by (auto simp add: Let_def split: option.splits)
  have "?run \<le> length (snd cur)" by (rule length_takeWhile_le)
  with j(2) have le: "j \<le> length (snd cur)" by simp
  have "\<forall>x \<in> set (take j (snd cur)). Q x"
  proof
    fix x assume "x \<in> set (take j (snd cur))"
    from take_le_takeWhile [OF j(2) this] have "cls_ok ic P x" .
    with Rep.prems(1) show "Q x" by simp
  qed
  with le j(1) show ?case by blast
qed

lemma rmatch_advance:
  "c' \<in> set (rmatch ic r cur) \<Longrightarrow> \<exists>j \<le> length (snd cur). c' = advance j cur"
proof -
  have t: "consumes ic (\<lambda>c. True) r" by (induction r) simp_all
  assume "c' \<in> set (rmatch ic r cur)"
  from rmatch_consumes [OF t this] show ?thesis by blast
qed

lemma hd_concat_map:
  "concat (map F xs) = g # gs \<Longrightarrow> \<exists>x \<in> set xs. \<exists>t. F x = g # t"
proof (induction xs)
  case Nil
  then show ?case by simp
next
  case (Cons x xs)
  then show ?case by (cases "F x") auto
qed

lemma search_from_Some:
  "search_from p b s = Some g \<Longrightarrow> \<exists>b' s' gs. match_here p (b', s') = g # gs"
proof (induction s arbitrary: b)
  case Nil
  then show ?case by (auto split: list.splits)
next
  case (Cons c cs)
  show ?case
  proof (cases "match_here p (b, c # cs)")
    case Nil
    with Cons.prems have "search_from p (c # b) cs = Some g" by simp
    from Cons.IH [OF this] show ?thesis .
  next
    case (Cons g' gs)
    with Cons.prems have "g' = g" by simp
    with Cons show ?thesis by blast
  qed
qed

lemma match_here_group:
  assumes "match_here p cur = g # gs"
  shows "\<exists>c1 c2 j. c1 \<in> set (rmatch (ignorecase p) (before_grp p) cur) \<and>
           c2 \<in> set (rmatch (ignorecase p) (grp p) c1) \<and>
           j \<le> length (snd c1) \<and> c2 = advance j c1 \<and> g = take j (snd c1)"
proof -
  from hd_concat_map [OF assms [unfolded match_here_def]]
  obtain c1 t where c1: "c1 \<in> set (rmatch (ignorecase p) (before_grp p) cur)"
    and f1: "concat (map (\<lambda>c2. map (\<lambda>c3. take (length (snd c1) - length (snd c2)) (snd c1))
               (rmatch (ignorecase p) (after_grp p) c2))
             (rmatch (ignorecase p) (grp p) c1)) = g # t"
    by blast
  from hd_concat_map [OF f1]
  obtain c2 t2 where c2: "c2 \<in> set (rmatch (ignorecase p) (grp p) c1)"
    and f2: "map (\<lambda>c3. take (length (snd c1) - length (snd c2)) (snd c1))
               (rmatch (ignorecase p) (after_grp p) c2) = g # t2"
    by auto
  from f2 have g: "g = take (length (snd c1) - length (snd c2)) (snd c1)" by auto
  from rmatch_advance [OF c2] obtain j where j: "j \<le> length (snd c1)" "c2 = advance j c1"
    by blast
  then have "length (snd c1) - length (snd c2) = j" by simp
  with g have "g = take j (snd c1)" by simp
  with c1 c2 j show ?thesis by blast
qed

section \<open>The search for LOT_PATTERN\<close>

section \<open>LOT_PATTERN finds the first decimal\<close>

lemma rep_none_nil:
  "length (takeWhile (cls_ok ic P) (snd cur)) < lo \<Longrightarrow> rmatch ic (Rep lo None P) cur = []"
  by (simp add: Let_def)

lemma rep_none_hd:
  assumes "lo \<le> length (takeWhile (cls_ok ic P) (snd cur))"
  shows "rmatch ic (Rep lo None P) cur =
           advance (length (takeWhile (cls_ok ic P) (snd cur))) cur #
           map (\<lambda>j. advance j cur) (rev [lo ..< length (takeWhile (cls_ok ic P) (snd cur))])"
  using assms by (simp add: Let_def)

lemma space_not_digit: "is_space c \<Longrightarrow> \<not> is_digit c"
  by (auto simp add: is_space_def is_digit_def)

lemma colon_not_digit: "is_colon_eq c \<Longrightarrow> \<not> is_digit c"
  by (auto simp add: is_colon_eq_def is_digit_def ord_def)

lemma dot_not_digit [simp]: "\<not> is_digit CHR ''.''"
  by (simp add: is_digit_def ord_def)

lemma consumes_lit_letters:
  "\<forall>p \<in> set w. is_lower p \<or> is_upper p \<Longrightarrow> consumes ic (\<lambda>c. \<not> is_digit c) (lit w)"
proof (induction w rule: lit.induct)
  case 1
  show ?case by simp
next
  case (2 c)
  then have "is_lower c \<or> is_upper c" by simp
  then show ?case using chr_eq_letter_not_digit [of c ic] by auto
next
  case (3 c v va)
  then have "is_lower c \<or> is_upper c" by simp
  then have "consumes ic (\<lambda>c. \<not> is_digit c) (Chr c)"
    using chr_eq_letter_not_digit [of c ic] by auto
  moreover from 3 have "consumes ic (\<lambda>c. \<not> is_digit c) (lit (v # va))" by simp
  ultimately show ?case by simp
qed

lemma lot_before_consumes: "consumes True (\<lambda>c. \<not> is_digit c) (before_grp LOT_PATTERN)"
proof -
  have l: "\<forall>p \<in> set ''lot''. is_lower p \<or> is_upper p"
          "\<forall>p \<in> set ''volume''. is_lower p \<or> is_upper p"
          "\<forall>p \<in> set ''vol''. is_lower p \<or> is_upper p"
    by (simp_all add: is_lower_def ord_def)
  show ?thesis
    unfolding LOT_PATTERN_def
    by (simp add: consumes_lit_letters [OF l(1)] consumes_lit_letters [OF l(2)]
          consumes_lit_letters [OF l(3)] space_not_digit colon_not_digit
          del: lit.simps)
qed

lemma in_seq:
  "c1 \<in> set (rmatch ic a cur) \<Longrightarrow> c2 \<in> set (rmatch ic b c1) \<Longrightarrow>
   c2 \<in> set (rmatch ic (Seq a b) cur)"
  by auto

lemma in_opt_self: "cur \<in> set (rmatch ic (Opt a) cur)"
  by simp

lemma in_rep0_self: "cur \<in> set (rmatch ic (Rep 0 None P) cur)"
proof -
  have "advance 0 cur \<in> set (rmatch ic (Rep 0 None P) cur)"
    unfolding rmatch.simps Let_def option.case set_map
    by (rule imageI) simp
  then show ?thesis by simp
qed

lemma lot_before_self: "cur \<in> set (rmatch True (before_grp LOT_PATTERN) cur)"
  unfolding LOT_PATTERN_def pattern.select_convs
  by (rule in_seq [OF in_opt_self], rule in_seq [OF in_rep0_self],
      rule in_seq [OF in_opt_self], rule in_rep0_self)

lemma lot_grp_nil:
  "(case s of [] \<Rightarrow> True | c # cs \<Rightarrow> \<not> is_digit c) \<Longrightarrow>
   rmatch True (grp LOT_PATTERN) (b, s) = []"
  by (cases s) (simp_all add: LOT_PATTERN_def Let_def split: if_splits)

lemma rep1_digit:
  "rmatch True (Rep 1 None is_digit) (b, s) =
     (if 1 \<le> length (takeWhile is_digit s)
      then advance (length (takeWhile is_digit s)) (b, s) #
           map (\<lambda>j. advance j (b, s)) (rev [1 ..< length (takeWhile is_digit s)])
      else [])"
  by (simp add: Let_def)

lemma frac_nil:
  "\<not> (\<exists>e r'. r = CHR ''.'' # e # r' \<and> is_digit e) \<Longrightarrow>
   rmatch True (Seq (Chr CHR ''.'') (Rep 1 None is_digit)) (b, r) = []"
proof (cases r)
  case Nil
  then show ?thesis by simp
next
  case (Cons d r')
  assume n: "\<not> (\<exists>e r'. r = CHR ''.'' # e # r' \<and> is_digit e)"
  show ?thesis
  proof (cases "d = CHR ''.''")
    case False
    with Cons show ?thesis by simp
  next
    case True
    with n Cons have "takeWhile is_digit r' = []" by (cases r') auto
    with True Cons show ?thesis
      by (simp only: rmatch.simps(2,5) snd_conv list.case chr_eq_dot if_True list.map
            concat.simps append_Nil2 advance_def fst_conv take_Suc_Cons drop_Suc_Cons
            One_nat_def take_0 drop_0 rev.simps append_Nil append_Cons)
         (simp add: rep1_digit [simplified One_nat_def])
  qed
qed

lemma frac_hd:
  assumes "is_digit e"
  shows "\<exists>rest. rmatch True (Seq (Chr CHR ''.'') (Rep 1 None is_digit)) (b, CHR ''.'' # e # r') =
           advance (Suc (length (takeWhile is_digit (e # r')))) (b, CHR ''.'' # e # r') # rest"
proof -
  have a: "rmatch True (Chr CHR ''.'') (b, CHR ''.'' # e # r') = [(CHR ''.'' # b, e # r')]"
    by (simp add: advance_def)
  have l: "1 \<le> length (takeWhile is_digit (e # r'))" using assms by simp
  have "rmatch True (Rep 1 None is_digit) (CHR ''.'' # b, e # r') =
      advance (length (takeWhile is_digit (e # r'))) (CHR ''.'' # b, e # r') #
      map (\<lambda>j. advance j (CHR ''.'' # b, e # r')) (rev [1 ..< length (takeWhile is_digit (e # r'))])"
    using l by (simp only: rep1_digit if_True)
  moreover have "advance (length (takeWhile is_digit (e # r'))) (CHR ''.'' # b, e # r') =
      advance (Suc (length (takeWhile is_digit (e # r')))) (b, CHR ''.'' # e # r')"
    by (simp add: advance_def)
  ultimately show ?thesis
    by (simp only: rmatch.simps(5) a list.map concat.simps append_Nil2) simp
qed

lemma decimal_prefix_int:
  "\<not> (\<exists>e r'. drop (length (takeWhile is_digit s)) s = CHR ''.'' # e # r' \<and> is_digit e) \<Longrightarrow>
   decimal_prefix s = takeWhile is_digit s"
  by (auto simp add: decimal_prefix_def Let_def split: list.splits)

lemma decimal_prefix_frac:
  "drop (length (takeWhile is_digit s)) s = CHR ''.'' # e # r' \<Longrightarrow> is_digit e \<Longrightarrow>
   decimal_prefix s = takeWhile is_digit s @ CHR ''.'' # takeWhile is_digit (e # r')"
  by (simp add: decimal_prefix_def Let_def)

lemma lot_grp_hd:
  assumes "is_digit c"
  shows "\<exists>rest. rmatch True (grp LOT_PATTERN) (b, c # cs) =
           advance (length (decimal_prefix (c # cs))) (b, c # cs) # rest"
proof -
  define s where "s = c # cs"
  define run where "run = length (takeWhile is_digit s)"
  define Y where "Y = Seq (Chr CHR ''.'') (Rep 1 None is_digit)"
  define b1 where "b1 = rev (take run s) @ b"
  define r where "r = drop run s"
  have run: "1 \<le> run" using assms by (simp add: run_def s_def)
  have c1: "advance run (b, s) = (b1, r)" by (simp add: advance_def b1_def r_def)
  have g: "grp LOT_PATTERN = Seq (Rep 1 None is_digit) (Opt Y)"
    by (simp add: LOT_PATTERN_def Y_def)
  obtain rest1 where rp: "rmatch True (Rep 1 None is_digit) (b, s) = (b1, r) # rest1"
    using run by (simp only: rep1_digit run_def [symmetric] if_True c1)
  have m: "rmatch True (grp LOT_PATTERN) (b, s) =
      (rmatch True Y (b1, r) @ [(b1, r)]) @ concat (map (rmatch True (Opt Y)) rest1)"
    by (simp only: g rmatch.simps(5) rp list.map concat.simps rmatch.simps(7))
  have "\<exists>rest. rmatch True Y (b1, r) @ [(b1, r)] =
          advance (length (decimal_prefix s)) (b, s) # rest"
  proof (cases "\<exists>e r'. r = CHR ''.'' # e # r' \<and> is_digit e")
    case False
    then have "rmatch True Y (b1, r) = []" unfolding Y_def by (rule frac_nil)
    moreover from False have "decimal_prefix s = takeWhile is_digit s"
      unfolding r_def run_def by (rule decimal_prefix_int)
    then have "length (decimal_prefix s) = run" by (simp add: run_def)
    ultimately show ?thesis by (simp add: c1)
  next
    case True
    then obtain e r' where r': "r = CHR ''.'' # e # r'" and e: "is_digit e" by blast
    from frac_hd [OF e, of b1 r'] obtain rest where
      y: "rmatch True Y (b1, r) = advance (Suc (length (takeWhile is_digit (e # r')))) (b1, r) # rest"
      unfolding Y_def r' by blast
    have "decimal_prefix s = takeWhile is_digit s @ CHR ''.'' # takeWhile is_digit (e # r')"
      using r' e unfolding r_def run_def by (rule decimal_prefix_frac)
    then have "length (decimal_prefix s) = run + Suc (length (takeWhile is_digit (e # r')))"
      by (simp add: run_def)
    moreover have "advance (Suc (length (takeWhile is_digit (e # r')))) (b1, r) =
        advance (run + Suc (length (takeWhile is_digit (e # r')))) (b, s)"
      by (simp only: c1 [symmetric] advance_advance)
    ultimately show ?thesis using y by simp
  qed
  then obtain rest where "rmatch True Y (b1, r) @ [(b1, r)] =
          advance (length (decimal_prefix s)) (b, s) # rest" by blast
  then have "rmatch True (grp LOT_PATTERN) (b, s) =
      advance (length (decimal_prefix s)) (b, s) # rest @ concat (map (rmatch True (Opt Y)) rest1)"
    by (simp only: m) simp
  then show ?thesis unfolding s_def by blast
qed


lemma decimal_prefix_is_prefix: "\<exists>rest. s = decimal_prefix s @ rest"
proof (cases "\<exists>e r'. drop (length (takeWhile is_digit s)) s = CHR ''.'' # e # r' \<and> is_digit e")
  case False
  from decimal_prefix_int [OF False]
  have "s = decimal_prefix s @ dropWhile is_digit s" by simp
  then show ?thesis ..
next
  case True
  then obtain e r' where r: "drop (length (takeWhile is_digit s)) s = CHR ''.'' # e # r'"
    and e: "is_digit e" by blast
  have dw: "dropWhile is_digit s = CHR ''.'' # e # r'"
    by (simp only: dropWhile_eq_drop r)
  have "s = takeWhile is_digit s @ dropWhile is_digit s"
    by (simp only: takeWhile_dropWhile_id)
  also have "\<dots> = takeWhile is_digit s @ CHR ''.'' # (takeWhile is_digit (e # r') @ dropWhile is_digit (e # r'))"
    by (simp only: dw takeWhile_dropWhile_id)
  also have "\<dots> = decimal_prefix s @ dropWhile is_digit (e # r')"
    by (simp only: decimal_prefix_frac [OF r e]) simp
  finally show ?thesis ..
qed

lemma take_decimal_prefix: "take (length (decimal_prefix s)) s = decimal_prefix s"
proof -
  from decimal_prefix_is_prefix obtain rest where "s = decimal_prefix s @ rest" ..
  then have "take (length (decimal_prefix s)) s =
      take (length (decimal_prefix s)) (decimal_prefix s @ rest)" by simp
  then show ?thesis by simp
qed

lemma concat_map_const_singleton:
  "concat (map (\<lambda>c2. map (\<lambda>c3. k c2) [c2]) xs) = map k xs"
  by (induction xs) simp_all

lemma lot_match_here_eq:
  "match_here LOT_PATTERN cur =
     concat (map (\<lambda>c1. map (\<lambda>c2. take (length (snd c1) - length (snd c2)) (snd c1))
                          (rmatch True (grp LOT_PATTERN) c1))
                 (rmatch True (before_grp LOT_PATTERN) cur))"
proof -
  have a: "after_grp LOT_PATTERN = Eps" "ignorecase LOT_PATTERN = True"
    by (simp_all add: LOT_PATTERN_def)
  show ?thesis
    by (simp only: match_here_def a rmatch.simps(1) concat_map_const_singleton)
qed

lemma lot_groups_at:
  "map (\<lambda>c2. take (length s1 - length (snd c2)) s1) (rmatch True (grp LOT_PATTERN) (b1, s1)) = g # t
   \<Longrightarrow> \<exists>c cs. s1 = c # cs \<and> is_digit c \<and> g = decimal_prefix s1"
proof -
  assume h: "map (\<lambda>c2. take (length s1 - length (snd c2)) s1)
               (rmatch True (grp LOT_PATTERN) (b1, s1)) = g # t"
  then have ne: "rmatch True (grp LOT_PATTERN) (b1, s1) \<noteq> []" by auto
  have "\<not> (case s1 of [] \<Rightarrow> True | c # cs \<Rightarrow> \<not> is_digit c)"
    using lot_grp_nil [of s1 b1] ne by blast
  then obtain c cs where s1: "s1 = c # cs" and c: "is_digit c"
    by (auto split: list.splits)
  from lot_grp_hd [OF c, of b1 cs] obtain rest where
    "rmatch True (grp LOT_PATTERN) (b1, s1) = advance (length (decimal_prefix s1)) (b1, s1) # rest"
    unfolding s1 by blast
  with h have "g = take (length s1 - length (drop (length (decimal_prefix s1)) s1)) s1"
    by simp
  moreover have "length (decimal_prefix s1) \<le> length s1"
    using decimal_prefix_is_prefix [of s1] by (metis length_append le_add1)
  ultimately have "g = take (length (decimal_prefix s1)) s1" by simp
  then have "g = decimal_prefix s1" by (simp only: take_decimal_prefix)
  with s1 c show ?thesis by blast
qed

lemma dropWhile_not_at:
  assumes "\<forall>x \<in> set (take j s). \<not> P x" and "drop j s = c # cs" and "P c"
  shows "dropWhile (\<lambda>x. \<not> P x) s = c # cs"
proof -
  have "dropWhile (\<lambda>x. \<not> P x) (take j s @ drop j s) = dropWhile (\<lambda>x. \<not> P x) (drop j s)"
    using assms(1) by (intro dropWhile_append2) simp
  then have "dropWhile (\<lambda>x. \<not> P x) s = dropWhile (\<lambda>x. \<not> P x) (drop j s)"
    by (simp only: append_take_drop_id)
  then show ?thesis using assms(3) by (simp only: assms(2)) simp
qed

lemma lot_match_here_hd:
  assumes "match_here LOT_PATTERN (b, s) = g # gs"
  shows "first_decimal s = Some g"
proof -
  from hd_concat_map [OF assms [unfolded lot_match_here_eq]]
  obtain c1 t where c1: "c1 \<in> set (rmatch True (before_grp LOT_PATTERN) (b, s))"
    and f: "map (\<lambda>c2. take (length (snd c1) - length (snd c2)) (snd c1))
              (rmatch True (grp LOT_PATTERN) c1) = g # t"
    by auto
  from rmatch_consumes [OF lot_before_consumes c1] obtain j where
    j: "c1 = advance j (b, s)" "\<forall>x \<in> set (take j s). \<not> is_digit x"
    by auto
  obtain b1 s1 where p: "c1 = (b1, s1)" by (cases c1)
  with j(1) have s1: "s1 = drop j s" by (simp add: advance_def)
  from f p lot_groups_at [of s1 b1 g t] obtain c cs where
    d: "s1 = c # cs" "is_digit c" "g = decimal_prefix s1" by auto
  from dropWhile_not_at [OF j(2), of c cs] s1 d(1,2)
  have "dropWhile (\<lambda>x. \<not> is_digit x) s = c # cs" by simp
  with d show ?thesis by (simp add: first_decimal_def)
qed

lemma lot_match_here_digit:
  assumes "is_digit c"
  shows "match_here LOT_PATTERN (b, c # cs) \<noteq> []"
proof -
  from lot_grp_hd [OF assms, of b cs]
  have "rmatch True (grp LOT_PATTERN) (b, c # cs) \<noteq> []" by auto
  with lot_before_self [of "(b, c # cs)"] show ?thesis
    unfolding lot_match_here_eq by (auto simp del: rmatch.simps)
qed

lemma lot_search_from: "search_from LOT_PATTERN b s = first_decimal s"
proof (induction s arbitrary: b)
  case Nil
  show ?case
  proof (cases "match_here LOT_PATTERN (b, [])")
    case Nil
    then show ?thesis by (simp add: first_decimal_def)
  next
    case (Cons g gs)
    from lot_match_here_hd [OF this] show ?thesis by (simp add: first_decimal_def)
  qed
next
  case (Cons c cs)
  show ?case
  proof (cases "match_here LOT_PATTERN (b, c # cs)")
    case Nil
    with lot_match_here_digit [of c b cs] have "\<not> is_digit c" by blast
    then have "first_decimal (c # cs) = first_decimal cs" by (simp add: first_decimal_def)
    with Nil Cons.IH [of "c # b"] show ?thesis by simp
  next
    case (Cons g gs)
    from lot_match_here_hd [OF this] Cons show ?thesis by simp
  qed
qed

lemma lot_search: "re_search LOT_PATTERN text = first_decimal text"
  by (simp add: re_search_def lot_search_from)

section \<open>The extractor on example texts\<close>

lemma upper_char_table:
  "upper_char CHR ''a'' = CHR ''A''" "upper_char CHR ''b'' = CHR ''B''"
  "upper_char CHR ''c'' = CHR ''C''" "upper_char CHR ''d'' = CHR ''D''"
  "upper_char CHR ''e'' = CHR ''E''" "upper_char CHR ''f'' = CHR ''F''"
  "upper_char CHR ''g'' = CHR ''G''" "upper_char CHR ''h'' = CHR ''H''"
  "upper_char CHR ''i'' = CHR ''I''" "upper_char CHR ''j'' = CHR ''J''"
  "upper_char CHR ''k'' = CHR ''K''" "upper_char CHR ''l'' = CHR ''L''"
  "upper_char CHR ''m'' = CHR ''M''" "upper_char CHR ''n'' = CHR ''N''"
  "upper_char CHR ''o'' = CHR ''O''" "upper_char CHR ''p'' = CHR ''P''"
  "upper_char CHR ''q'' = CHR ''Q''" "upper_char CHR ''r'' = CHR ''R''"
  "upper_char CHR ''s'' = CHR ''S''" "upper_char CHR ''t'' = CHR ''T''"
  "upper_char CHR ''u'' = CHR ''U''" "upper_char CHR ''v'' = CHR ''V''"
  "upper_char CHR ''w'' = CHR ''W''" "upper_char CHR ''x'' = CHR ''X''"
  "upper_char CHR ''y'' = CHR ''Y''" "upper_char CHR ''z'' = CHR ''Z''"
  by (simp_all add: upper_char_def is_lower_def ord_def char_of_eq_iff)

lemma upper_char_other: "\<not> is_lower c \<Longrightarrow> upper_char c = c"
  by (simp add: upper_char_def)

lemma chr_eq_True_ord:
  "chr_eq True p c =
     ((if is_upper p then ord p + 32 else ord p) = (if is_upper c then ord c + 32 else ord c))"
proof -
  have "chr_eq True p c = (ord (lower_char p) = ord (lower_char c))"
    using ord_inj by (auto simp add: chr_eq_def)
  then show ?thesis by (simp only: ord_lower_char)
qed

lemma chr_eq_False: "chr_eq False p c = (p = c)"
  by (simp add: chr_eq_def)

lemma cls_ok_False: "cls_ok False P c = P c"
  by (simp add: cls_ok_def)

lemma cls_ok_False_fun: "cls_ok False P = P"
  by (rule ext) (simp add: cls_ok_def)

lemmas upper_eval = upper_def upper_char_table upper_char_other is_lower_def ord_def

lemmas search_eval = re_search_def match_here_def SYMBOL_PATTERN_def SIDE_PATTERN_def
  quote_currencies_def at_boundary_def advance_def is_word_def is_upper_def is_lower_def
  is_digit_def ord_def chr_eq_True_ord chr_eq_False cls_ok_False cls_ok_False_fun
  Let_def

lemma up1: "upper ''GBPUSD SELL lot: 2'' = ''GBPUSD SELL LOT: 2''"
  by (simp add: upper_eval)

lemma sym1: "re_search SYMBOL_PATTERN ''GBPUSD SELL LOT: 2'' = Some ''GBPUSD''"
  by (simp add: search_eval)

lemma side1: "re_search SIDE_PATTERN ''GBPUSD SELL LOT: 2'' = Some ''SELL''"
  by (simp add: search_eval)

lemma lot1: "re_search LOT_PATTERN ''GBPUSD SELL lot: 2'' = Some ''2''"
  by (simp add: lot_search first_decimal_def decimal_prefix_def is_digit_def ord_def Let_def)

lemma dv2: "dec_value ''2'' = 2"
  by (simp add: dec_value_def digits_val_def digit_val_def ord_def)

lemma bl: "bit_length 2 = 2" "bit_length (Suc 0) = Suc 0" "bit_length 3 = 2" "bit_length 0 = 0"
  by (simp_all add: bit_length.simps)

lemma fl2: "floor_log2 2 = 1"
  by (simp add: floor_log2_def bl pow2_def Let_def)

lemma rb2: "round_binary64 2 = Finite 2"
  by (simp add: round_binary64_def fl2 pow2_def round_half_even_def Let_def)

lemma fl1: "py_float ''2'' = Finite 2"
  by (simp add: py_float_def dv2 rb2)

lemma extract_via_first_decimal:
  "extract_single_record text =
     (case re_search SYMBOL_PATTERN (upper text) of
        None \<Rightarrow> None
      | Some symbol_match \<Rightarrow>
     (case re_search SIDE_PATTERN (upper text) of
        None \<Rightarrow> None
      | Some side_match \<Rightarrow>
     (case first_decimal text of
        None \<Rightarrow> None
      | Some d \<Rightarrow>
          if float_le_zero (py_float d) then None
          else Some \<lparr> symbol = upper symbol_match, side = upper side_match, lot = py_float d \<rparr>)))"
  by (simp add: extract_single_record_def lot_search Let_def split: option.splits)

lemma extract_no_decimal: "first_decimal text = None \<Longrightarrow> extract_single_record text = None"
  by (simp add: extract_via_first_decimal split: option.splits)

lemma extract_no_side:
  "re_search SIDE_PATTERN (upper text) = None \<Longrightarrow> extract_single_record text = None"
  by (simp add: extract_via_first_decimal split: option.splits)

text \<open>
  Claim C10, amended. The size label is optional: a search for LOT_PATTERN returns the
  first decimal of the text, the digits from the leftmost digit of the text on (with
  the digits behind a dot that follows them), whether or not a label stands before
  it. A text whose upper-case form contains a symbol and a side yields a record
  exactly when it contains a digit and the float of its first decimal is positive,
  and the size of the record is that float; a later decimal is never used.
\<close>

theorem size_is_first_decimal:
  "re_search LOT_PATTERN text = first_decimal text \<and>
   (\<forall>smb sd d. re_search SYMBOL_PATTERN (upper text) = Some smb \<and>
       re_search SIDE_PATTERN (upper text) = Some sd \<and>
       first_decimal text = Some d \<and> \<not> float_le_zero (py_float d) \<longrightarrow>
       extract_single_record text =
         Some \<lparr> symbol = upper smb, side = upper sd, lot = py_float d \<rparr>) \<and>
   (\<forall>d. first_decimal text = Some d \<and> float_le_zero (py_float d) \<longrightarrow>
       extract_single_record text = None) \<and>
   (first_decimal text = None \<longrightarrow> extract_single_record text = None)"
  by (simp add: lot_search extract_via_first_decimal split: option.splits)

lemmas decimal_eval = first_decimal_def decimal_prefix_def is_digit_def ord_def Let_def

lemma dv3: "dec_value ''3'' = 3" "dec_value ''0'' = 0"
  by (simp_all add: dec_value_def digits_val_def digit_val_def ord_def)

lemma fl3: "floor_log2 3 = 1"
  by (simp add: floor_log2_def bl pow2_def Let_def)

lemma rb3: "round_binary64 3 = Finite 3"
  by (simp add: round_binary64_def fl3 pow2_def round_half_even_def Let_def)

lemma py_float_3: "py_float ''3'' = Finite 3"
  by (simp add: py_float_def dv3 rb3)

lemma py_float_0: "py_float ''0'' = Finite 0"
  by (simp add: py_float_def dv3 round_binary64_def)

lemma up_e3: "upper ''EURUSD BUY 3'' = ''EURUSD BUY 3''"
  by (simp add: upper_eval)

lemma sym_e3: "re_search SYMBOL_PATTERN ''EURUSD BUY 3'' = Some ''EURUSD''"
  by (simp add: search_eval)

lemma side_e3: "re_search SIDE_PATTERN ''EURUSD BUY 3'' = Some ''BUY''"
  by (simp add: search_eval)

lemma fd_e3: "first_decimal ''EURUSD BUY 3'' = Some ''3''"
  by (simp add: decimal_eval)

theorem size_is_first_decimal_witness:
  "extract_single_record ''EURUSD BUY 3'' =
     Some \<lparr> symbol = ''EURUSD'', side = ''BUY'', lot = Finite 3 \<rparr>"
proof -
  have h: "re_search SYMBOL_PATTERN (upper ''EURUSD BUY 3'') = Some ''EURUSD'' \<and>
       re_search SIDE_PATTERN (upper ''EURUSD BUY 3'') = Some ''BUY'' \<and>
       first_decimal ''EURUSD BUY 3'' = Some ''3'' \<and> \<not> float_le_zero (py_float ''3'')"
    by (simp add: up_e3 sym_e3 side_e3 fd_e3 py_float_3)
  from size_is_first_decimal [of "''EURUSD BUY 3''"] h
  have "extract_single_record ''EURUSD BUY 3'' =
      Some \<lparr> symbol = upper ''EURUSD'', side = upper ''BUY'', lot = py_float ''3'' \<rparr>"
    by blast
  then show ?thesis by (simp add: py_float_3 upper_eval)
qed

lemma up_e03: "upper ''EURUSD BUY 0 3'' = ''EURUSD BUY 0 3''"
  by (simp add: upper_eval)

lemma sym_e03: "re_search SYMBOL_PATTERN ''EURUSD BUY 0 3'' = Some ''EURUSD''"
  by (simp add: search_eval)

lemma side_e03: "re_search SIDE_PATTERN ''EURUSD BUY 0 3'' = Some ''BUY''"
  by (simp add: search_eval)

lemma lot_e03: "re_search LOT_PATTERN ''EURUSD BUY 0 3'' = Some ''0''"
  by (simp add: lot_search decimal_eval)

text \<open>
  Claim C10, counterexample. The text \<open>EURUSD BUY 0 3\<close> contains a symbol, a side and
  the bare decimal \<open>3\<close>, which is strictly positive and has no label; the extractor
  produces no record, because the first decimal of the text is \<open>0\<close>.
\<close>

theorem bare_decimal_counterexample:
  "re_search SYMBOL_PATTERN (upper ''EURUSD BUY 0 3'') = Some ''EURUSD'' \<and>
   re_search SIDE_PATTERN (upper ''EURUSD BUY 0 3'') = Some ''BUY'' \<and>
   ''EURUSD BUY 0 3'' = ''EURUSD BUY 0 '' @ ''3'' \<and>
   py_float ''3'' = Finite 3 \<and> \<not> float_le_zero (py_float ''3'') \<and>
   extract_single_record ''EURUSD BUY 0 3'' = None"
  by (simp add: up_e03 sym_e03 side_e03 lot_e03 py_float_3 py_float_0 extract_single_record_def)

lemma tokens_three:
  "tokens_of [''GBPUSD'', ''SELL'', ''lot: 2''] = [''GBPUSD'', ''SELL'', ''lot: 2'']"
  by (simp add: tokens_of_def is_token_sep_def strip_nonempty_def strip_def is_space_def ord_def)

lemma windows_three:
  "window_text [''GBPUSD'', ''SELL'', ''lot: 2''] 0 = ''GBPUSD SELL lot: 2''"
  "window_text [''GBPUSD'', ''SELL'', ''lot: 2''] (Suc 0) = ''SELL lot: 2''"
  "window_text [''GBPUSD'', ''SELL'', ''lot: 2''] (Suc (Suc 0)) = ''lot: 2''"
  by (simp_all add: window_text_def)

lemma rec_gbpusd: "extract_single_record ''GBPUSD'' = None"
  by (rule extract_no_decimal) (simp add: decimal_eval)

lemma rec_sell: "extract_single_record ''SELL'' = None"
  by (rule extract_no_decimal) (simp add: decimal_eval)

lemma up_lot2: "upper ''lot: 2'' = ''LOT: 2''"
  by (simp add: upper_eval)

lemma side_lot2: "re_search SIDE_PATTERN ''LOT: 2'' = None"
  by (simp add: search_eval)

lemma rec_lot2: "extract_single_record ''lot: 2'' = None"
  by (rule extract_no_side) (simp add: up_lot2 side_lot2)

lemma fd_w0: "first_decimal ''GBPUSD SELL lot: 2'' = Some ''2''"
  by (simp add: decimal_eval)

lemma rec_w0:
  "extract_single_record ''GBPUSD SELL lot: 2'' =
     Some \<lparr> symbol = ''GBPUSD'', side = ''SELL'', lot = Finite 2 \<rparr>"
  by (simp add: extract_via_first_decimal up1 sym1 side1 fd_w0 fl1 upper_eval)

lemma up_w1: "upper ''SELL lot: 2'' = ''SELL LOT: 2''"
  by (simp add: upper_eval)

lemma sym_w1: "re_search SYMBOL_PATTERN ''SELL LOT: 2'' = Some ''SELL''"
  by (simp add: search_eval)

lemma side_w1: "re_search SIDE_PATTERN ''SELL LOT: 2'' = Some ''SELL''"
  by (simp add: search_eval)

lemma fd_w1: "first_decimal ''SELL lot: 2'' = Some ''2''"
  by (simp add: decimal_eval)

lemma rec_w1:
  "extract_single_record ''SELL lot: 2'' =
     Some \<lparr> symbol = ''SELL'', side = ''SELL'', lot = Finite 2 \<rparr>"
  by (simp add: extract_via_first_decimal up_w1 sym_w1 side_w1 fd_w1 fl1 upper_eval)

lemma upt_3: "[0 ..< 3] = [0, 1, 2]"
  by (simp add: upt_rec)

text \<open>
  Claim C5, amended. None of the three fragments \<open>GBPUSD\<close>, \<open>SELL\<close>, \<open>lot: 2\<close> yields a
  record on its own. The windows over the three tokens yield the record
  (GBPUSD, SELL, 2.0) from the window that starts at the first token, and a second
  record (SELL, SELL, 2.0) from the window \<open>SELL lot: 2\<close> that starts at the second
  token, in which the word \<open>SELL\<close> is also the leftmost match of SYMBOL_PATTERN; the
  extractor returns both records, in this order.
\<close>

theorem window_recovery:
  "extract_single_record ''GBPUSD'' = None \<and>
   extract_single_record ''SELL'' = None \<and>
   extract_single_record ''lot: 2'' = None \<and>
   line_records [''GBPUSD'', ''SELL'', ''lot: 2''] = [] \<and>
   tokens_of [''GBPUSD'', ''SELL'', ''lot: 2''] = [''GBPUSD'', ''SELL'', ''lot: 2''] \<and>
   extract_single_record (window_text (tokens_of [''GBPUSD'', ''SELL'', ''lot: 2'']) 0) =
     Some \<lparr> symbol = ''GBPUSD'', side = ''SELL'', lot = Finite 2 \<rparr> \<and>
   window_records [''GBPUSD'', ''SELL'', ''lot: 2''] =
     [\<lparr> symbol = ''GBPUSD'', side = ''SELL'', lot = Finite 2 \<rparr>,
      \<lparr> symbol = ''SELL'', side = ''SELL'', lot = Finite 2 \<rparr>] \<and>
   extract_positions_from_texts [''GBPUSD'', ''SELL'', ''lot: 2''] =
     [\<lparr> symbol = ''GBPUSD'', side = ''SELL'', lot = Finite 2 \<rparr>,
      \<lparr> symbol = ''SELL'', side = ''SELL'', lot = Finite 2 \<rparr>]"
  by (simp add: extract_positions_from_texts_def line_records_def window_records_def
        List.map_filter_def tokens_three windows_three upt_3 rec_gbpusd rec_sell rec_lot2
        rec_w0 rec_w1 Let_def)

text \<open>
  Claim C5, counterexample. The records the extractor returns for the three fragments
  are not exactly the one record (GBPUSD, SELL, 2.0), and neither are those of the
  sliding-window path.
\<close>

theorem window_recovery_counterexample:
  "extract_positions_from_texts [''GBPUSD'', ''SELL'', ''lot: 2''] \<noteq>
     [\<lparr> symbol = ''GBPUSD'', side = ''SELL'', lot = Finite 2 \<rparr>] \<and>
   window_records [''GBPUSD'', ''SELL'', ''lot: 2''] \<noteq>
     [\<lparr> symbol = ''GBPUSD'', side = ''SELL'', lot = Finite 2 \<rparr>]"
  by (simp add: extract_positions_from_texts_def line_records_def window_records_def
        List.map_filter_def tokens_three windows_three upt_3 rec_gbpusd rec_sell rec_lot2
        rec_w0 rec_w1 Let_def)

section \<open>The shape of an extracted record\<close>

section \<open>What a record of the extractor looks like\<close>

lemma lit_match:
  "c2 \<in> set (rmatch ic (lit w) c1) \<Longrightarrow>
   c2 = advance (length w) c1 \<and> length w \<le> length (snd c1) \<and>
   list_all2 (chr_eq ic) w (take (length w) (snd c1))"
proof (induction w arbitrary: c1 c2 rule: lit.induct)
  case 1
  then show ?case by simp
next
  case (2 c)
  then show ?case by (cases "snd c1") (auto split: if_splits)
next
  case (3 c v va)
  from "3.prems" obtain c' where a: "c' \<in> set (rmatch ic (Chr c) c1)"
    and b: "c2 \<in> set (rmatch ic (lit (v # va)) c')"
    by (auto simp del: rmatch.simps(2))
  from a obtain x xs where s1: "snd c1 = x # xs" and e: "chr_eq ic c x" and c': "c' = advance 1 c1"
    by (cases "snd c1") (auto split: if_splits)
  from "3.IH" [OF b] have i: "c2 = advance (length (v # va)) c'"
    "length (v # va) \<le> length (snd c')"
    "list_all2 (chr_eq ic) (v # va) (take (length (v # va)) (snd c'))"
    by blast+
  have sc': "snd c' = xs" using c' s1 by simp
  have "c2 = advance (length (c # v # va)) c1"
    using i(1) c' by (simp only: advance_advance) simp
  moreover have "length (c # v # va) \<le> length (snd c1)" using i(2) sc' s1 by simp
  moreover have "list_all2 (chr_eq ic) (c # v # va) (take (length (c # v # va)) (snd c1))"
    using i(3) sc' s1 e by simp
  ultimately show ?case by blast
qed

lemma list_all2_chr_eq_upper: "list_all2 (chr_eq ic) w g \<Longrightarrow> upper g = upper w"
  by (induction rule: list_all2_induct) (simp_all add: upper_def chr_eq_upper)

lemma advance_eq_length:
  "advance j c1 = advance k c1 \<Longrightarrow> j \<le> length (snd c1) \<Longrightarrow> k \<le> length (snd c1) \<Longrightarrow> j = k"
proof -
  assume "advance j c1 = advance k c1" and j: "j \<le> length (snd c1)" and k: "k \<le> length (snd c1)"
  then have "length (drop j (snd c1)) = length (drop k (snd c1))" by (simp add: advance_def)
  with j k show "j = k" by simp
qed

lemma side_group:
  assumes "match_here SIDE_PATTERN cur = g # gs"
  shows "upper g = ''BUY'' \<or> upper g = ''SELL''"
proof -
  from match_here_group [OF assms] obtain c1 c2 j where
    c2: "c2 \<in> set (rmatch (ignorecase SIDE_PATTERN) (grp SIDE_PATTERN) c1)"
    and j: "j \<le> length (snd c1)" "c2 = advance j c1" "g = take j (snd c1)"
    by blast
  have gs: "grp SIDE_PATTERN = Alt (lit ''BUY'') (lit ''SELL'')" "ignorecase SIDE_PATTERN = True"
    by (simp_all add: SIDE_PATTERN_def)
  from c2 have "c2 \<in> set (rmatch True (lit ''BUY'') c1) \<or> c2 \<in> set (rmatch True (lit ''SELL'') c1)"
    by (simp only: gs rmatch.simps(6) set_append Un_iff)
  then show ?thesis
  proof
    assume "c2 \<in> set (rmatch True (lit ''BUY'') c1)"
    from lit_match [OF this] have l: "c2 = advance (length ''BUY'') c1"
      "length ''BUY'' \<le> length (snd c1)"
      "list_all2 (chr_eq True) ''BUY'' (take (length ''BUY'') (snd c1))" by blast+
    from advance_eq_length [OF _ j(1) l(2)] j(2) l(1) have "j = length ''BUY''" by simp
    with l(3) j(3) have "list_all2 (chr_eq True) ''BUY'' g" by simp
    from list_all2_chr_eq_upper [OF this] show ?thesis by (simp add: upper_eval)
  next
    assume "c2 \<in> set (rmatch True (lit ''SELL'') c1)"
    from lit_match [OF this] have l: "c2 = advance (length ''SELL'') c1"
      "length ''SELL'' \<le> length (snd c1)"
      "list_all2 (chr_eq True) ''SELL'' (take (length ''SELL'') (snd c1))" by blast+
    from advance_eq_length [OF _ j(1) l(2)] j(2) l(1) have "j = length ''SELL''" by simp
    with l(3) j(3) have "list_all2 (chr_eq True) ''SELL'' g" by simp
    from list_all2_chr_eq_upper [OF this] show ?thesis by (simp add: upper_eval)
  qed
qed

lemma consumes_lit_upper:
  "\<forall>p \<in> set w. is_upper p \<Longrightarrow> consumes False is_upper (lit w)"
  by (induction w rule: lit.induct) (simp_all add: chr_eq_def)

lemma symbol_grp_consumes: "consumes False is_upper (grp SYMBOL_PATTERN)"
proof -
  have l: "\<forall>w \<in> set quote_currencies. \<forall>p \<in> set w. is_upper p"
    by (simp add: quote_currencies_def is_upper_def ord_def)
  have "\<And>ws. \<forall>w \<in> set ws. \<forall>p \<in> set w. is_upper p \<Longrightarrow>
          consumes False is_upper (alts (map lit ws))"
  proof -
    fix ws :: "string list"
    show "\<forall>w \<in> set ws. \<forall>p \<in> set w. is_upper p \<Longrightarrow> consumes False is_upper (alts (map lit ws))"
    proof (induction ws)
      case Nil
      show ?case by simp
    next
      case (Cons w ws)
      then have a: "consumes False is_upper (lit w)" by (simp add: consumes_lit_upper)
      from Cons have b: "consumes False is_upper (alts (map lit ws))" by simp
      show ?case using a b by (cases ws) (simp_all del: lit.simps)
    qed
  qed
  from this [OF l] show ?thesis
    by (simp add: SYMBOL_PATTERN_def cls_ok_def)
qed

lemma symbol_group:
  assumes "match_here SYMBOL_PATTERN cur = g # gs"
  shows "\<forall>x \<in> set g. is_upper x"
proof -
  from match_here_group [OF assms] obtain c1 c2 j where
    c2: "c2 \<in> set (rmatch (ignorecase SYMBOL_PATTERN) (grp SYMBOL_PATTERN) c1)"
    and j: "j \<le> length (snd c1)" "c2 = advance j c1" "g = take j (snd c1)"
    by blast
  have ic: "ignorecase SYMBOL_PATTERN = False" by (simp add: SYMBOL_PATTERN_def)
  from rmatch_consumes [OF symbol_grp_consumes c2 [unfolded ic]] obtain k where
    k: "k \<le> length (snd c1)" "c2 = advance k c1" "\<forall>x \<in> set (take k (snd c1)). is_upper x"
    by blast
  from advance_eq_length [OF _ j(1) k(1)] j(2) k(2) have "j = k" by simp
  with k(3) j(3) show ?thesis by simp
qed

lemma upper_of_upper: "\<forall>x \<in> set g. is_upper x \<Longrightarrow> upper g = g"
  by (induction g) (simp_all add: upper_def)

lemma extract_shape:
  assumes "extract_single_record text = Some r"
  shows "(\<forall>x \<in> set (symbol r). is_upper x) \<and> (side r = ''BUY'' \<or> side r = ''SELL'') \<and>
         \<not> float_le_zero (lot r)"
proof -
  from assms obtain g1 g2 d where
    s1: "re_search SYMBOL_PATTERN (upper text) = Some g1"
    and s2: "re_search SIDE_PATTERN (upper text) = Some g2"
    and r: "r = \<lparr> symbol = upper g1, side = upper g2, lot = py_float d \<rparr>"
    and p: "\<not> float_le_zero (py_float d)"
    by (auto simp add: extract_via_first_decimal split: option.splits if_splits)
  from s1 search_from_Some [of SYMBOL_PATTERN "[]" "upper text" g1]
  obtain b' s' gs where "match_here SYMBOL_PATTERN (b', s') = g1 # gs"
    by (auto simp add: re_search_def)
  from symbol_group [OF this] have u: "\<forall>x \<in> set g1. is_upper x" .
  from s2 search_from_Some [of SIDE_PATTERN "[]" "upper text" g2]
  obtain b'' s'' gs' where "match_here SIDE_PATTERN (b'', s'') = g2 # gs'"
    by (auto simp add: re_search_def)
  from side_group [OF this] have sd: "upper g2 = ''BUY'' \<or> upper g2 = ''SELL''" .
  from u sd p r show ?thesis by (simp add: upper_of_upper)
qed

section \<open>The published JSON objects\<close>

lemma set_unique_records: "set (unique_records seen rs) \<subseteq> set rs"
  by (induction rs arbitrary: seen) auto

lemma set_map_filter: "x \<in> set (List.map_filter f xs) \<Longrightarrow> \<exists>y \<in> set xs. f y = Some x"
  by (auto simp add: List.map_filter_def)

lemma extracted_position:
  assumes "p \<in> set (extract_positions_from_texts texts)"
  shows "\<exists>t. extract_single_record t = Some p"
proof -
  from assms have "p \<in> set (unique_records [] (line_records texts @ window_records texts))"
    by (simp add: extract_positions_from_texts_def)
  with set_unique_records [of "[]" "line_records texts @ window_records texts"]
  have "p \<in> set (line_records texts @ window_records texts)" by blast
  then have "p \<in> set (line_records texts) \<or> p \<in> set (window_records texts)"
    by simp
  then show ?thesis
  proof
    assume "p \<in> set (line_records texts)"
    from set_map_filter [OF this [unfolded line_records_def]] show ?thesis by blast
  next
    assume "p \<in> set (window_records texts)"
    from set_map_filter [OF this [unfolded window_records_def Let_def]] show ?thesis by blast
  qed
qed

lemma foldl_bump_keys: "fst ` set (foldl bump c ks) = fst ` set c \<union> set ks"
  by (induction ks arbitrary: c) (auto simp add: bump_keys)

lemma Counter_keys: "fst ` set (Counter ks) = set ks"
  by (simp add: Counter_def foldl_bump_keys)

lemma snapshot_keys:
  assumes "read_live_positions cap = Inr B"
  shows "wf_counter B \<and>
         (\<forall>k \<in> fst ` set B. \<exists>t p. extract_single_record t = Some p \<and> k = key_of p)"
proof -
  from assms obtain texts where B: "B = Counter (map key_of (extract_positions_from_texts texts))"
    by (auto simp add: read_live_positions_def Let_def split: sum.splits if_splits)
  have "\<forall>k \<in> fst ` set B. \<exists>t p. extract_single_record t = Some p \<and> k = key_of p"
  proof
    fix k assume "k \<in> fst ` set B"
    then have "k \<in> key_of ` set (extract_positions_from_texts texts)"
      by (simp only: B Counter_keys set_map)
    then obtain p where "p \<in> set (extract_positions_from_texts texts)" and k: "k = key_of p"
      by blast
    from extracted_position [OF this(1)] k
    show "\<exists>t p. extract_single_record t = Some p \<and> k = key_of p" by blast
  qed
  then show ?thesis by (simp add: B Counter_wf)
qed

lemma upper_neq: "is_upper c \<Longrightarrow> ord d < 65 \<or> 90 < ord d \<Longrightarrow> c \<noteq> d"
  by (auto simp add: is_upper_def)

lemma escape_upper:
  assumes "is_upper c"
  shows "escape_char c = [c]"
proof -
  have n: \<open>c \<noteq> CHR ''"''\<close> "c \<noteq> CHR 0x5C" "c \<noteq> CHR 0x0A" "c \<noteq> CHR 0x0D"
      "c \<noteq> CHR 0x09" "c \<noteq> CHR 0x08" "c \<noteq> CHR 0x0C"
    by (rule upper_neq [OF assms], simp add: ord_def)+
  from assms have "32 \<le> ord c \<and> ord c \<le> 126" by (simp add: is_upper_def)
  with n show ?thesis by (simp only: escape_char_def if_False if_True simp_thms)
qed

lemma encode_str_upper:
  \<open>\<forall>x \<in> set s. is_upper x \<Longrightarrow> encode_str s = [CHR ''"''] @ s @ [CHR ''"'']\<close>
proof -
  assume a: "\<forall>x \<in> set s. is_upper x"
  then have "concat (map escape_char s) = s"
    by (induction s) (simp_all add: escape_upper)
  then show ?thesis by (simp add: encode_str_def)
qed

lemma compact_open:
  \<open>compact_json fr (open_payload (smb, sd, l)) =
     ''{"action":"OPEN","symbol":'' @ encode_str smb @ '',"side":'' @ encode_str sd @
     '',"lot":'' @ encode_value fr (JNum l) @ ''}''\<close>
  by (simp add: compact_json_def json_dumps_def open_payload_def)
     (simp add: encode_str_def escape_char_def ord_def)

lemma compact_close:
  \<open>compact_json fr (close_payload smb) = ''{"action":"CLOSE","symbol":'' @ encode_str smb @ ''}''\<close>
  by (simp add: compact_json_def json_dumps_def close_payload_def)
     (simp add: encode_str_def escape_char_def ord_def)

lemma open_events_members:
  assumes "distinct (map fst cur)" and "wf_counter prev" and "p \<in> set (open_events prev cur)"
  shows "\<exists>k \<in> fst ` set cur. p = open_payload k"
  using assms(3) unfolding open_events_by_key [OF assms(1,2)] by auto

lemma close_events_members:
  assumes "distinct (map fst prev)" and "wf_counter cur" and "p \<in> set (close_events prev cur)"
  shows "\<exists>k \<in> fst ` set prev. p = close_payload (fst k)"
  using assms(3) unfolding close_events_by_key [OF assms(1,2)] by auto

lemma snapshot_key_shape:
  assumes "read_live_positions cap = Inr B" and "(smb, sd, l) \<in> fst ` set B"
  shows "(\<forall>x \<in> set smb. is_upper x) \<and> (sd = ''BUY'' \<or> sd = ''SELL'') \<and> \<not> float_le_zero l"
proof -
  from snapshot_keys [OF assms(1)] assms(2) obtain t p where
    "extract_single_record t = Some p" and "(smb, sd, l) = key_of p" by blast
  with extract_shape [of t p] show ?thesis by (simp add: key_of_def)
qed

lemma positive_float_cases:
  "\<not> float_le_zero l \<Longrightarrow> (\<exists>q. 0 < q \<and> l = Finite q) \<or> l = Infinity"
  by (cases l) auto

lemma split_on_none: "\<forall>c \<in> set s. \<not> P c \<Longrightarrow> split_on P s = [s]"
  by (induction s) simp_all

lemma strip_id:
  assumes "s \<noteq> []" and "\<not> is_space (hd s)" and "\<not> is_space (last s)"
  shows "strip s = s"
proof -
  from assms(1,2) have a: "dropWhile is_space s = s" by (cases s) simp_all
  from assms(1,3) have "dropWhile is_space (rev s) = rev s"
    by (cases "rev s") (simp_all add: last_rev [symmetric] hd_rev)
  with a show ?thesis by (simp add: strip_def)
qed

lemma single_text_positions:
  assumes "t \<noteq> []" and "\<not> is_space (hd t)" and "\<not> is_space (last t)"
      and "\<forall>c \<in> set t. \<not> is_token_sep c"
      and "extract_single_record t = Some r"
  shows "read_live_positions \<lparr>ui_nodes = Inr [(t, [])], ocr_lines = lines\<rparr> = Inr [(key_of r, 1)]"
proof -
  have st: "strip t = t" by (rule strip_id [OF assms(1,2,3)])
  have ch: "chunks_of [(t, [])] = [t]" by (simp add: chunks_of_def st assms(1)) (simp add: strip_def)
  have tk: "tokens_of [t] = [t]"
    by (simp add: tokens_of_def split_on_none [OF assms(4)] strip_nonempty_def st assms(1))
  have ex: "extract_positions_from_texts [t] = [r]"
    by (simp add: extract_positions_from_texts_def line_records_def window_records_def tk
          window_text_def List.map_filter_def assms(5))
  show ?thesis
    by (simp add: read_live_positions_def ch ex Counter_def)
qed

lemma rec_e3:
  "extract_single_record ''EURUSD BUY 3'' =
     Some \<lparr> symbol = ''EURUSD'', side = ''BUY'', lot = Finite 3 \<rparr>"
  by (simp add: extract_via_first_decimal up_e3 sym_e3 side_e3 fd_e3 py_float_3 upper_eval)

lemma capture_e3:
  "read_live_positions \<lparr>ui_nodes = Inr [(''EURUSD BUY 3'', [])], ocr_lines = Inr []\<rparr> =
     Inr [((''EURUSD'', ''BUY'', Finite 3), 1)]"
proof -
  have "read_live_positions \<lparr>ui_nodes = Inr [(''EURUSD BUY 3'', [])], ocr_lines = Inr []\<rparr> =
      Inr [(key_of \<lparr> symbol = ''EURUSD'', side = ''BUY'', lot = Finite 3 \<rparr>, 1)]"
    by (rule single_text_positions [OF _ _ _ _ rec_e3])
       (simp_all add: is_space_def is_token_sep_def ord_def)
  then show ?thesis by (simp add: key_of_def)
qed

lemma digits_val_zeros:
  "foldl (\<lambda>acc c. 10 * acc + digit_val c) a (replicate n CHR ''0'') = a * 10 ^ n"
  by (induction n arbitrary: a) (simp_all add: digit_val_def ord_def)

lemma dec_value_one_zeros: "dec_value (CHR ''1'' # replicate n CHR ''0'') = 10 ^ n"
  by (simp add: dec_value_def digits_val_def digits_val_zeros Let_def)
     (simp add: digit_val_def ord_def)

lemma py_float_overflow: "py_float (CHR ''1'' # replicate 309 CHR ''0'') = Infinity"
proof -
  have "pow2 1024 \<le> 10 ^ 309" by (simp add: pow2_def)
  then show ?thesis by (simp only: py_float_def dec_value_one_zeros round_binary64_overflow)
qed

lemma up_big: "upper (''EURUSD BUY 1'' @ replicate 309 CHR ''0'') = ''EURUSD BUY 1'' @ replicate 309 CHR ''0''"
  by (simp add: upper_eval)

lemma sym_big: "re_search SYMBOL_PATTERN (''EURUSD BUY 1'' @ replicate 309 CHR ''0'') = Some ''EURUSD''"
  by (simp add: search_eval)

lemma side_big: "re_search SIDE_PATTERN (''EURUSD BUY 1'' @ replicate 309 CHR ''0'') = Some ''BUY''"
  by (simp add: search_eval)

lemma fd_big:
  "first_decimal (''EURUSD BUY 1'' @ replicate 309 CHR ''0'') = Some (CHR ''1'' # replicate 309 CHR ''0'')"
  by (simp add: decimal_eval)

lemma rec_big:
  "extract_single_record (''EURUSD BUY 1'' @ replicate 309 CHR ''0'') =
     Some \<lparr> symbol = ''EURUSD'', side = ''BUY'', lot = Infinity \<rparr>"
  by (simp only: extract_via_first_decimal up_big sym_big side_big fd_big py_float_overflow
        option.case float_le_zero.simps if_False)
     (simp add: upper_eval)

lemma capture_big:
  "read_live_positions
     \<lparr>ui_nodes = Inr [(''EURUSD BUY 1'' @ replicate 309 CHR ''0'', [])], ocr_lines = Inr []\<rparr> =
     Inr [((''EURUSD'', ''BUY'', Infinity), 1)]"
proof -
  have "read_live_positions
     \<lparr>ui_nodes = Inr [(''EURUSD BUY 1'' @ replicate 309 CHR ''0'', [])], ocr_lines = Inr []\<rparr> =
      Inr [(key_of \<lparr> symbol = ''EURUSD'', side = ''BUY'', lot = Infinity \<rparr>, 1)]"
    by (rule single_text_positions [OF _ _ _ _ rec_big])
       (simp_all add: is_space_def is_token_sep_def ord_def)
  then show ?thesis by (simp add: key_of_def)
qed

lemma open_events_single:
  "open_events [] [(k, 1)] = [open_payload k]" "close_events [] [(k, 1)] = []"
  "close_events [(k, 1)] [] = [close_payload (fst k)]" "open_events [(k, 1)] [] = []"
  by (simp_all add: open_events_def close_events_def counter_sub_def cget_def)

text \<open>
  Claim C6, counterexample. A node whose text is \<open>EURUSD BUY 1\<close> followed by 309 zeros
  has a size that overflows binary64. The cycle publishes an Open event whose
  \<open>lot\<close> is written \<open>Infinity\<close>, which is not a JSON number.
\<close>

theorem published_json_counterexample:
  \<open>py_float (CHR ''1'' # replicate 309 CHR ''0'') = Infinity \<and>
   read_live_positions
     \<lparr>ui_nodes = Inr [(''EURUSD BUY 1'' @ replicate 309 CHR ''0'', [])], ocr_lines = Inr []\<rparr> =
     Inr [((''EURUSD'', ''BUY'', Infinity), 1)] \<and>
   snd (run_cycle (steady_world 0)
     \<lparr>ui_nodes = Inr [(''EURUSD BUY 1'' @ replicate 309 CHR ''0'', [])], ocr_lines = Inr []\<rparr>
     init_bridge) = None \<and>
   signal_file (fst (run_cycle (steady_world 0)
     \<lparr>ui_nodes = Inr [(''EURUSD BUY 1'' @ replicate 309 CHR ''0'', [])], ocr_lines = Inr []\<rparr>
     init_bridge)) =
     Some ''{"action":"OPEN","symbol":"EURUSD","side":"BUY","lot":Infinity}''\<close>
proof -
  let ?k = "(''EURUSD'', ''BUY'', Infinity)"
  have c: \<open>compact_json demo_repr (open_payload ?k) =
      ''{"action":"OPEN","symbol":"EURUSD","side":"BUY","lot":Infinity}''\<close>
    by (simp add: compact_open) (simp add: encode_str_def escape_char_def ord_def)
  have "run_cycle (steady_world 0)
     \<lparr>ui_nodes = Inr [(''EURUSD BUY 1'' @ replicate 309 CHR ''0'', [])], ocr_lines = Inr []\<rparr>
     init_bridge =
     (init_bridge\<lparr>recent_signals := [signature_of demo_repr (open_payload ?k) \<mapsto> 0],
        tmp_file := None,
        signal_file := Some (compact_json demo_repr (open_payload ?k)),
        published := [compact_json demo_repr (open_payload ?k)],
        prev_positions := [(?k, 1)]\<rparr>, None)"
    by (simp only: run_cycle_def capture_big sum.case)
       (simp add: emit_deltas_def delta_events_def open_events_single write_signal_def Let_def)
  then have r: \<open>snd (run_cycle (steady_world 0)
     \<lparr>ui_nodes = Inr [(''EURUSD BUY 1'' @ replicate 309 CHR ''0'', [])], ocr_lines = Inr []\<rparr>
     init_bridge) = None \<and>
   signal_file (fst (run_cycle (steady_world 0)
     \<lparr>ui_nodes = Inr [(''EURUSD BUY 1'' @ replicate 309 CHR ''0'', [])], ocr_lines = Inr []\<rparr>
     init_bridge)) =
     Some ''{"action":"OPEN","symbol":"EURUSD","side":"BUY","lot":Infinity}''\<close>
    by (simp only: fst_conv snd_conv) (simp add: c)
  from py_float_overflow capture_big r show ?thesis by (intro conjI) (simp_all only: simp_thms)
qed

text \<open>
  Claim C6, amended. For Snapshots captured by the driver loop, every Close event
  carries only the symbol of the key, a word of upper-case letters, and its compact
  text is \<open>{"action":"CLOSE","symbol":"<symbol>"}\<close>. Every Open event carries the
  symbol, the side, which is \<open>BUY\<close> or \<open>SELL\<close>, and the size of the key, and its
  compact text is \<open>{"action":"OPEN","symbol":"<symbol>","side":"<side>","lot":<text>}\<close>,
  where the text is that of \<open>float.__repr__\<close> for a finite size, which is positive,
  and \<open>Infinity\<close> for a size that overflowed. A successful write leaves this text in
  the signal file.
\<close>

theorem published_json_objects:
  assumes "read_live_positions capA = Inr A" and "read_live_positions capB = Inr B"
  shows \<open>(\<forall>p \<in> set (close_events A B). \<exists>smb.
            p = close_payload smb \<and> (\<forall>x \<in> set smb. is_upper x) \<and>
            compact_json fr p = ''{"action":"CLOSE","symbol":"'' @ smb @ ''"}'') \<and>
         (\<forall>p \<in> set (open_events A B). \<exists>smb sd l.
            p = open_payload (smb, sd, l) \<and> (\<forall>x \<in> set smb. is_upper x) \<and>
            (sd = ''BUY'' \<or> sd = ''SELL'') \<and>
            ((\<exists>q. 0 < q \<and> l = Finite q \<and>
                compact_json fr p =
                  ''{"action":"OPEN","symbol":"'' @ smb @ ''","side":"'' @ sd @
                  ''","lot":'' @ fr (Finite q) @ ''}'') \<or>
             (l = Infinity \<and>
                compact_json fr p =
                  ''{"action":"OPEN","symbol":"'' @ smb @ ''","side":"'' @ sd @
                  ''","lot":Infinity}''))) \<and>
         (\<forall>p w i s. p \<in> set (delta_events A B) \<and> disk w i = IoOk \<and>
            signature_of (float_repr w) p \<notin> dom (prune (clock w i) (recent_signals s)) \<longrightarrow>
            signal_file (fst (write_signal w i p s)) = Some (compact_json (float_repr w) p))\<close>
proof (intro conjI ballI allI impI)
  from snapshot_keys [OF assms(1)] snapshot_keys [OF assms(2)]
  have wA: "wf_counter A" and wB: "wf_counter B" by simp_all
  then have dA: "distinct (map fst A)" and dB: "distinct (map fst B)"
    by (simp_all add: wf_counter_def)
  {
    fix p assume "p \<in> set (close_events A B)"
    from close_events_members [OF dA wB this] obtain k where
      k: "k \<in> fst ` set A" and p: "p = close_payload (fst k)" by blast
    obtain smb sd l where kk: "k = (smb, sd, l)" by (cases k)
    from k kk have "(smb, sd, l) \<in> fst ` set A" by simp
    from snapshot_key_shape [OF assms(1) this] have u: "\<forall>x \<in> set smb. is_upper x" by simp
    have \<open>compact_json fr p = ''{"action":"CLOSE","symbol":"'' @ smb @ ''"}''\<close>
      by (simp add: p kk compact_close encode_str_upper [OF u])
    with p kk u show \<open>\<exists>smb. p = close_payload smb \<and> (\<forall>x \<in> set smb. is_upper x) \<and>
            compact_json fr p = ''{"action":"CLOSE","symbol":"'' @ smb @ ''"}''\<close>
      by auto
  }
  {
    fix p assume "p \<in> set (open_events A B)"
    from open_events_members [OF dB wA this] obtain k where
      k: "k \<in> fst ` set B" and p: "p = open_payload k" by blast
    obtain smb sd l where kk: "k = (smb, sd, l)" by (cases k)
    from k kk have "(smb, sd, l) \<in> fst ` set B" by simp
    from snapshot_key_shape [OF assms(2) this]
    have u: "\<forall>x \<in> set smb. is_upper x" and sd: "sd = ''BUY'' \<or> sd = ''SELL''"
      and pos: "\<not> float_le_zero l" by simp_all
    from sd have us: "\<forall>x \<in> set sd. is_upper x" by (auto simp add: is_upper_def ord_def)
    have c: \<open>compact_json fr p =
        ''{"action":"OPEN","symbol":"'' @ smb @ ''","side":"'' @ sd @ ''","lot":'' @
        encode_value fr (JNum l) @ ''}''\<close>
      by (simp add: p kk compact_open encode_str_upper [OF u] encode_str_upper [OF us])
    from positive_float_cases [OF pos]
    have \<open>(\<exists>q. 0 < q \<and> l = Finite q \<and>
                compact_json fr p =
                  ''{"action":"OPEN","symbol":"'' @ smb @ ''","side":"'' @ sd @
                  ''","lot":'' @ fr (Finite q) @ ''}'') \<or>
             (l = Infinity \<and>
                compact_json fr p =
                  ''{"action":"OPEN","symbol":"'' @ smb @ ''","side":"'' @ sd @
                  ''","lot":Infinity}'')\<close>
    proof
      assume "\<exists>q. 0 < q \<and> l = Finite q"
      then obtain q where "0 < q" and "l = Finite q" by blast
      with c show ?thesis by auto
    next
      assume "l = Infinity"
      with c show ?thesis by simp
    qed
    with p kk sd u show \<open>\<exists>smb sd l.
            p = open_payload (smb, sd, l) \<and> (\<forall>x \<in> set smb. is_upper x) \<and>
            (sd = ''BUY'' \<or> sd = ''SELL'') \<and>
            ((\<exists>q. 0 < q \<and> l = Finite q \<and>
                compact_json fr p =
                  ''{"action":"OPEN","symbol":"'' @ smb @ ''","side":"'' @ sd @
                  ''","lot":'' @ fr (Finite q) @ ''}'') \<or>
             (l = Infinity \<and>
                compact_json fr p =
                  ''{"action":"OPEN","symbol":"'' @ smb @ ''","side":"'' @ sd @
                  ''","lot":Infinity}''))\<close>
      by blast
  }
  {
    fix p :: payload and w :: world and i :: nat and s :: bridge
    assume "p \<in> set (delta_events A B) \<and> disk w i = IoOk \<and>
            signature_of (float_repr w) p \<notin> dom (prune (clock w i) (recent_signals s))"
    then have "prune (clock w i) (recent_signals s) (signature_of (float_repr w) p) = None"
      and "disk w i = IoOk" by (auto simp add: domIff)
    from write_signal_ok [OF this]
    show "signal_file (fst (write_signal w i p s)) = Some (compact_json (float_repr w) p)"
      by simp
  }
qed

theorem published_json_objects_witness:
  \<open>read_live_positions \<lparr>ui_nodes = Inr [], ocr_lines = Inr []\<rparr> = Inr [] \<and>
   read_live_positions \<lparr>ui_nodes = Inr [(''EURUSD BUY 3'', [])], ocr_lines = Inr []\<rparr> =
     Inr [((''EURUSD'', ''BUY'', Finite 3), 1)] \<and>
   open_events [] [((''EURUSD'', ''BUY'', Finite 3), 1)] =
     [open_payload (''EURUSD'', ''BUY'', Finite 3)] \<and>
   compact_json demo_repr (open_payload (''EURUSD'', ''BUY'', Finite 3)) =
     ''{"action":"OPEN","symbol":"EURUSD","side":"BUY","lot":3.0}'' \<and>
   close_events [((''EURUSD'', ''BUY'', Finite 3), 1)] [] = [close_payload ''EURUSD''] \<and>
   compact_json demo_repr (close_payload ''EURUSD'') = ''{"action":"CLOSE","symbol":"EURUSD"}''\<close>
proof -
  let ?capA = "\<lparr>ui_nodes = Inr [], ocr_lines = Inr []\<rparr>"
  let ?capB = "\<lparr>ui_nodes = Inr [(''EURUSD BUY 3'', [])], ocr_lines = Inr []\<rparr>"
  let ?k = "(''EURUSD'', ''BUY'', Finite 3)"
  have a: "read_live_positions ?capA = Inr []" by (rule empty_capture)
  have b: "read_live_positions ?capB = Inr [(?k, 1)]" by (rule capture_e3)
  have o: "open_events [] [(?k, 1)] = [open_payload ?k]" by (simp add: open_events_single)
  have cl: "close_events [(?k, 1)] [] = [close_payload ''EURUSD'']" by (simp add: open_events_single)
  from published_json_objects [OF a b, of demo_repr]
  have "\<forall>p \<in> set (open_events [] [(?k, 1)]). \<exists>smb sd l.
            p = open_payload (smb, sd, l) \<and> (\<forall>x \<in> set smb. is_upper x) \<and>
            (sd = ''BUY'' \<or> sd = ''SELL'') \<and>
            ((\<exists>q. 0 < q \<and> l = Finite q \<and>
                compact_json demo_repr p =
                  ''{\"action\":\"OPEN\",\"symbol\":\"'' @ smb @ ''\",\"side\":\"'' @ sd @
                  ''\",\"lot\":'' @ demo_repr (Finite q) @ ''}'') \<or>
             (l = Infinity \<and>
                compact_json demo_repr p =
                  ''{\"action\":\"OPEN\",\"symbol\":\"'' @ smb @ ''\",\"side\":\"'' @ sd @
                  ''\",\"lot\":Infinity}''))"
    by (rule conjunct1 [OF conjunct2])
  then have op: \<open>compact_json demo_repr (open_payload ?k) =
     ''{"action":"OPEN","symbol":"EURUSD","side":"BUY","lot":3.0}''\<close>
    by (auto simp add: o open_payload_def demo_repr_def)
  from published_json_objects [OF b a, of demo_repr]
  have "\<forall>p \<in> set (close_events [(?k, 1)] []). \<exists>smb.
            p = close_payload smb \<and> (\<forall>x \<in> set smb. is_upper x) \<and>
            compact_json demo_repr p = ''{\"action\":\"CLOSE\",\"symbol\":\"'' @ smb @ ''\"}''"
    by (rule conjunct1)
  then have clo: \<open>compact_json demo_repr (close_payload ''EURUSD'') =
      ''{"action":"CLOSE","symbol":"EURUSD"}''\<close>
    by (auto simp add: cl close_payload_def)
  from a b o op cl clo show ?thesis by blast
qed

end
